theory Spec2Isabelle
  imports Main
begin

section \<open>Strings and errors\<close>

text \<open>
  JavaScript strings are modelled as \<^typ>\<open>string\<close> (lists of characters); the
  functions below only ever compare characters with the ASCII characters
  \<open>~\<close>, \<open>/\<close>, \<open>#\<close>, \<open>0\<close> and \<open>1\<close>, so the width of a code unit plays no role.

  \<open>slice s a b\<close> is \<open>s.slice(a, b)\<close> for \<open>0 \<le> a\<close> and \<open>0 \<le> b\<close>;
  \<open>s.slice(a)\<close> is \<^term>\<open>drop a s\<close>.
\<close>

definition slice :: "string \<Rightarrow> nat \<Rightarrow> nat \<Rightarrow> string" where
  "slice s a b = take (b - a) (drop a s)"

text \<open>\<open>JSON.stringify\<close> on a string: quotes, and escapes for the quote, the backslash
  and the control characters.\<close>

definition hexDigit :: "nat \<Rightarrow> char" where
  "hexDigit n = (''0123456789abcdef'') ! (n mod 16)"

definition quoteChar :: "char \<Rightarrow> string" where
  "quoteChar c =
     (if c = CHR 0x22 then [CHR 0x5C, CHR 0x22]
      else if c = CHR 0x5C then [CHR 0x5C, CHR 0x5C]
      else if c = CHR 0x08 then [CHR 0x5C, CHR ''b'']
      else if c = CHR 0x0C then [CHR 0x5C, CHR ''f'']
      else if c = CHR 0x0A then [CHR 0x5C, CHR ''n'']
      else if c = CHR 0x0D then [CHR 0x5C, CHR ''r'']
      else if c = CHR 0x09 then [CHR 0x5C, CHR ''t'']
      else if of_char c < (0x20 :: nat)
        then [CHR 0x5C, CHR ''u'', CHR ''0'', CHR ''0'',
              hexDigit (of_char c div 16), hexDigit (of_char c)]
      else [c])"

definition JSON_stringify :: "string \<Rightarrow> string" where
  "JSON_stringify s = [CHR 0x22] @ concat (map quoteChar s) @ [CHR 0x22]"

text \<open>
  The error classes of \<open>error.ts\<close>, together with the two built-in classes the
  code throws. \<open>ResolutionError message location cause\<close> carries the optional
  \<open>location\<close> of \<open>ProcessingError\<close> and the \<open>cause\<close> of \<open>ErrorOptions\<close>, which
  \<open>resolveReferences\<close> sets to the list of aggregated errors.
\<close>

datatype error =
    TypeError string
  | Error string
  | ProcessingError string "string option"
  | ResolutionError string "string option" "error list"

fun errorMessage :: "error \<Rightarrow> string" where
  "errorMessage (TypeError m) = m"
| "errorMessage (Error m) = m"
| "errorMessage (ProcessingError m l) = m"
| "errorMessage (ResolutionError m l c) = m"

text \<open>\<open>error instanceof ResolutionError\<close>\<close>

fun isResolutionError :: "error \<Rightarrow> bool" where
  "isResolutionError (ResolutionError m l c) = True"
| "isResolutionError _ = False"

section \<open>JSON Pointer tokens (\<open>pointer.ts\<close>)\<close>

text \<open>
  The \<open>while\<close> loop of \<open>escapePointer\<close>, with its three variables \<open>output\<close>,
  \<open>offset\<close> and \<open>start\<close>; it returns \<open>output\<close> and \<open>start\<close> at loop exit.
\<close>

function escapeLoop :: "string \<Rightarrow> string \<Rightarrow> nat \<Rightarrow> nat \<Rightarrow> string \<times> nat" where
  "escapeLoop input output offset start =
     (if offset < length input then
        (let c = input ! offset in
         if c = CHR ''~'' then
           escapeLoop input (output @ slice input start offset @ ''~0'') (offset + 1) (offset + 1)
         else if c = CHR ''/'' then
           escapeLoop input (output @ slice input start offset @ ''~1'') (offset + 1) (offset + 1)
         else escapeLoop input output (offset + 1) start)
      else (output, start))"
  by pat_completeness auto
termination
  by (relation "measure (\<lambda>(input, output, offset, start). length input - offset)") auto

declare escapeLoop.simps [simp del]

definition escapePointer :: "string \<Rightarrow> string" where
  "escapePointer input =
     (case escapeLoop input [] 0 0 of (output, start) \<Rightarrow>
        if start = 0 then input
        else if start < length input then output @ drop start input
        else output)"

text \<open>
  The loop of \<open>unescapePointer\<close>. After a \<open>~\<close> the next code unit is read
  (\<open>-1\<close> past the end, here \<^term>\<open>None\<close>); anything but \<open>0\<close> or \<open>1\<close> throws a
  \<open>TypeError\<close>.
\<close>

function unescapeLoop :: "string \<Rightarrow> string \<Rightarrow> nat \<Rightarrow> nat \<Rightarrow> error + (string \<times> nat)" where
  "unescapeLoop input output offset start =
     (if offset < length input then
        (if input ! offset = CHR ''~'' then
           (let output1 = output @ slice input start offset;
                offset1 = offset + 1;
                c = (if offset1 < length input then Some (input ! offset1) else None)
            in if c = Some (CHR ''0'') then
                 unescapeLoop input (output1 @ ''~'') (offset1 + 1) (offset1 + 1)
               else if c = Some (CHR ''1'') then
                 unescapeLoop input (output1 @ ''/'') (offset1 + 1) (offset1 + 1)
               else Inl (TypeError (''Invalid JSON pointer escape sequence: '' @
                      JSON_stringify (slice input (offset1 - 1) (offset1 + 1)))))
         else unescapeLoop input output (offset + 1) start)
      else Inr (output, start))"
  by pat_completeness auto
termination
  by (relation "measure (\<lambda>(input, output, offset, start). length input - offset)") auto

declare unescapeLoop.simps [simp del]

definition unescapePointer :: "string \<Rightarrow> error + string" where
  "unescapePointer input =
     (case unescapeLoop input [] 0 0 of
        Inl e \<Rightarrow> Inl e
      | Inr (output, start) \<Rightarrow>
          Inr (if start = 0 then input
               else if start < length input then output @ drop start input
               else output))"

text \<open>
  Two auxiliary notions used to state what the escaping loops compute: the escape of a
  single character, and strings free of the two special characters.
\<close>

definition escChar :: "char \<Rightarrow> string" where
  "escChar c = (if c = CHR ''~'' then ''~0'' else if c = CHR ''/'' then ''~1'' else [c])"

definition plain :: "string \<Rightarrow> bool" where
  "plain s = (CHR ''~'' \<notin> set s \<and> CHR ''/'' \<notin> set s)"


section \<open>Nodes (\<open>node.ts\<close>)\<close>

text \<open>
  A node is a JSON value. Objects and arrays have identity: the code keys its
  \<open>WeakMap\<close>s, \<open>Map\<close>s and \<open>Set\<close>s by them and compares them with \<open>===\<close> and
  \<open>includes\<close>. They live in an arena (the heap) and a node refers to them by
  address, \<^term>\<open>Ptr a\<close>; primitives are compared by value, as \<open>SameValueZero\<close>
  does. The payload of a number is an integer. JavaScript's \<open>undefined\<close> is
  \<^term>\<open>None\<close> of an option type.

  The code reads properties with \<open>node[key]\<close> and tests them with \<open>key in object\<close>,
  and both follow the prototype chain. So the values include what a JSON node
  inherits: the two prototype objects \<open>Object.prototype\<close> and \<open>Array.prototype\<close>,
  and their function-valued properties, \<^term>\<open>Fn p name\<close> being the value of the
  property \<open>name\<close> of the prototype object \<open>p\<close>.
\<close>

type_synonym addr = nat

datatype proto = ObjectPrototype | ArrayPrototype

datatype val = Null | Bool bool | Num int | Str string | Ptr addr | Proto proto | Fn proto string

text \<open>
  An object is the list of its own enumerable properties in enumeration order, an
  array the list of its items. The prototype of an \<^term>\<open>Obj ps\<close> is
  \<open>Object.prototype\<close> and that of an \<^term>\<open>Arr xs\<close> is \<open>Array.prototype\<close>, as for every
  object and array that \<open>JSON.parse\<close> or a literal makes. \<^term>\<open>Derived p ps\<close> is an
  object whose prototype has been replaced by \<open>p\<close>, which is what the assignment
  \<open>result["__proto__"] = p\<close> does to an object \<open>result\<close>.
\<close>

datatype obj = Obj "(string \<times> val) list" | Arr "val list" | Derived val "(string \<times> val) list"

type_synonym heap = "obj list"

text \<open>Addresses outside the arena do not occur in a running program; they read as an
  object without properties.\<close>

definition heapGet :: "heap \<Rightarrow> addr \<Rightarrow> obj" where
  "heapGet h a = (if a < length h then h ! a else Obj [])"

definition alloc :: "heap \<Rightarrow> obj \<Rightarrow> addr \<times> heap" where
  "alloc h ob = (length h, h @ [ob])"

text \<open>\<open>isObject(node)\<close> is \<open>node !== null && typeof node === "object"\<close>: true of objects,
  arrays and the prototype objects, false of functions, whose \<open>typeof\<close> is
  \<open>"function"\<close>. \<open>Array.isArray\<close> is true of \<open>Array.prototype\<close> as well.\<close>

definition isObject :: "val \<Rightarrow> bool" where
  "isObject node = (case node of Ptr a \<Rightarrow> True | Proto p \<Rightarrow> True | _ \<Rightarrow> False)"

definition isArray :: "heap \<Rightarrow> val \<Rightarrow> bool" where
  "isArray h node =
     (case node of
        Ptr a \<Rightarrow> (case heapGet h a of Arr xs \<Rightarrow> True | _ \<Rightarrow> False)
      | Proto p \<Rightarrow> p = ArrayPrototype
      | _ \<Rightarrow> False)"

text \<open>\<open>String(n)\<close> for a non-negative integer, and the reading of a property key as
  an array index (a decimal numeral without leading zero).\<close>

definition digitChar :: "nat \<Rightarrow> char" where
  "digitChar d = char_of (48 + d)"

fun showNat :: "nat \<Rightarrow> string" where
  "showNat n = (if n < 10 then [digitChar n] else showNat (n div 10) @ [digitChar (n mod 10)])"

declare showNat.simps [simp del]

definition isDigit :: "char \<Rightarrow> bool" where
  "isDigit c = (48 \<le> (of_char c :: nat) \<and> (of_char c :: nat) \<le> 57)"

definition readNat :: "string \<Rightarrow> nat" where
  "readNat s = foldl (\<lambda>a c. 10 * a + (of_char c - 48)) 0 s"

definition arrayIndex :: "string \<Rightarrow> nat option" where
  "arrayIndex key =
     (if key \<noteq> [] \<and> list_all isDigit key \<and> (hd key \<noteq> CHR ''0'' \<or> key = ''0'')
      then Some (readNat key) else None)"

text \<open>
  The string-keyed properties of the two prototype objects (ECMAScript 2023, with
  its Annex B). All are functions but \<open>__proto__\<close>, an accessor of
  \<open>Object.prototype\<close> that is treated apart, and the \<open>length\<close> of
  \<open>Array.prototype\<close>, which is itself an array of length 0.
\<close>

definition objectPrototypeKeys :: "string list" where
  "objectPrototypeKeys =
     [''constructor'', ''__defineGetter__'', ''__defineSetter__'', ''hasOwnProperty'',
      ''__lookupGetter__'', ''__lookupSetter__'', ''isPrototypeOf'', ''propertyIsEnumerable'',
      ''toString'', ''valueOf'', ''toLocaleString'']"

definition arrayPrototypeKeys :: "string list" where
  "arrayPrototypeKeys =
     [''constructor'', ''at'', ''concat'', ''copyWithin'', ''fill'', ''find'', ''findIndex'',
      ''findLast'', ''findLastIndex'', ''lastIndexOf'', ''pop'', ''push'', ''reverse'', ''shift'',
      ''unshift'', ''slice'', ''sort'', ''splice'', ''includes'', ''indexOf'', ''join'', ''keys'',
      ''entries'', ''values'', ''forEach'', ''filter'', ''flat'', ''flatMap'', ''map'', ''every'',
      ''some'', ''reduce'', ''reduceRight'', ''toLocaleString'', ''toString'', ''toReversed'',
      ''toSorted'', ''toSpliced'', ''with'']"

text \<open>\<open>Object.getPrototypeOf(node)\<close> for an object; the end of the chain is \<open>null\<close>.
  The properties that functions have of their own and from \<open>Function.prototype\<close>
  are not listed: in the chain a function passes on to \<open>Object.prototype\<close>.\<close>

definition prototypeOf :: "heap \<Rightarrow> val \<Rightarrow> val" where
  "prototypeOf h node =
     (case node of
        Ptr a \<Rightarrow>
          (case heapGet h a of
             Obj ps \<Rightarrow> Proto ObjectPrototype
           | Arr xs \<Rightarrow> Proto ArrayPrototype
           | Derived p ps \<Rightarrow> p)
      | Proto ArrayPrototype \<Rightarrow> Proto ObjectPrototype
      | Fn p name \<Rightarrow> Proto ObjectPrototype
      | _ \<Rightarrow> Null)"

text \<open>The own data property \<open>key\<close> of an object, if it has one.\<close>

definition ownProperty :: "heap \<Rightarrow> val \<Rightarrow> string \<Rightarrow> val option" where
  "ownProperty h node key =
     (case node of
        Ptr a \<Rightarrow>
          (case heapGet h a of
             Obj ps \<Rightarrow> map_of ps key
           | Derived p ps \<Rightarrow> map_of ps key
           | Arr xs \<Rightarrow>
               (case arrayIndex key of
                  Some i \<Rightarrow> if i < length xs then Some (xs ! i) else None
                | None \<Rightarrow> if key = ''length'' then Some (Num (int (length xs))) else None))
      | Proto ObjectPrototype \<Rightarrow>
          if key \<in> set objectPrototypeKeys then Some (Fn ObjectPrototype key) else None
      | Proto ArrayPrototype \<Rightarrow>
          if key = ''length'' then Some (Num 0)
          else if key \<in> set arrayPrototypeKeys then Some (Fn ArrayPrototype key)
          else None
      | _ \<Rightarrow> None)"

text \<open>
  The property \<open>key\<close> of \<open>receiver\<close>, looked for from \<open>holder\<close> up the prototype chain.
  The accessor \<open>__proto__\<close> of \<open>Object.prototype\<close> returns the prototype of the
  receiver. The first argument bounds the length of the chain; a chain has no cycle,
  so it is no longer than the arena and the two prototype objects.
\<close>

fun lookupChain :: "nat \<Rightarrow> heap \<Rightarrow> val \<Rightarrow> val \<Rightarrow> string \<Rightarrow> val option" where
  "lookupChain 0 h holder receiver key = None"
| "lookupChain (Suc n) h holder receiver key =
     (case ownProperty h holder key of
        Some v \<Rightarrow> Some v
      | None \<Rightarrow>
          if holder = Proto ObjectPrototype then
            (if key = ''__proto__'' then Some (prototypeOf h receiver) else None)
          else if prototypeOf h holder = Null then None
          else lookupChain n h (prototypeOf h holder) receiver key)"

text \<open>\<open>getChild(node, key)\<close> is \<open>node[key]\<close> on what \<open>typeof\<close> calls an object, and
  \<open>undefined\<close> on everything else.\<close>

definition getChild :: "heap \<Rightarrow> val \<Rightarrow> string \<Rightarrow> val option" where
  "getChild h node key =
     (if isObject node then lookupChain (length h + 3) h node node key else None)"

text \<open>\<open>Object.values(node)\<close> and \<open>Object.entries(node)\<close>: the own enumerable properties.
  The prototype objects have none.\<close>

definition objectValues :: "obj \<Rightarrow> val list" where
  "objectValues ob = (case ob of Obj ps \<Rightarrow> map snd ps | Arr xs \<Rightarrow> xs | Derived p ps \<Rightarrow> map snd ps)"

section \<open>JSON Pointer resolution (\<open>pointer.ts\<close>)\<close>

text \<open>\<open>s.indexOf(c, from)\<close>; \<^term>\<open>None\<close> is \<open>-1\<close>.\<close>

definition indexOf :: "string \<Rightarrow> char \<Rightarrow> nat \<Rightarrow> nat option" where
  "indexOf s c from =
     (if c \<in> set (drop from s) then Some (from + length (takeWhile (\<lambda>x. x \<noteq> c) (drop from s)))
      else None)"

definition startsWith :: "string \<Rightarrow> string \<Rightarrow> bool" where
  "startsWith s p = (take (length p) s = p)"

definition endsWith :: "string \<Rightarrow> string \<Rightarrow> bool" where
  "endsWith s p = (length p \<le> length s \<and> drop (length s - length p) s = p)"

text \<open>The token end computed at the head of the loop of \<open>resolvePointer\<close> and
  \<open>parsePointer\<close>.\<close>

definition tokenEnd :: "string \<Rightarrow> nat \<Rightarrow> nat" where
  "tokenEnd pointer offset =
     (case indexOf pointer (CHR ''/'') (offset + 1) of None \<Rightarrow> length pointer | Some e \<Rightarrow> e)"

lemma tokenEnd_gt: "offset < length pointer \<Longrightarrow> offset < tokenEnd pointer offset"
  by (simp add: tokenEnd_def indexOf_def)

function pointerLoop :: "heap \<Rightarrow> string \<Rightarrow> val \<Rightarrow> nat \<Rightarrow> error + val" where
  "pointerLoop h pointer node offset =
     (if offset < length pointer then
        (let end = tokenEnd pointer offset in
         case unescapePointer (slice pointer (offset + 1) end) of
           Inl e \<Rightarrow> Inl e
         | Inr token \<Rightarrow>
             (case getChild h node token of
                None \<Rightarrow>
                  Inl (ResolutionError
                        (''Property '' @ JSON_stringify token @
                         '' not found while resolving JSON pointer '' @ JSON_stringify pointer)
                        (Some (slice pointer 0 end)) [])
              | Some next \<Rightarrow> pointerLoop h pointer next end))
      else Inr node)"
  by pat_completeness auto
termination
  by (relation "measure (\<lambda>(h, pointer, node, offset). length pointer - offset)")
     (auto simp: tokenEnd_gt diff_less_mono2)

declare pointerLoop.simps [simp del]

definition resolvePointer :: "heap \<Rightarrow> string \<Rightarrow> val \<Rightarrow> error + val" where
  "resolvePointer h pointer node =
     (if pointer \<noteq> [] \<and> \<not> startsWith pointer ''/'' then
        Inl (TypeError (''Expected JSON pointer to start with '' @ [CHR 0x22, CHR ''/'', CHR 0x22] @
                        '': '' @ JSON_stringify pointer))
      else pointerLoop h pointer node 0)"

text \<open>\<open>formatPointer\<close> on string tokens.\<close>

definition formatPointer :: "string list \<Rightarrow> string" where
  "formatPointer tokens = foldl (\<lambda>pointer token. pointer @ ''/'' @ escapePointer token) [] tokens"

section \<open>Context and frame stack (\<open>context.ts\<close>)\<close>

text \<open>
  A \<open>Resource\<close>. No operation modelled here changes a resource after it has been
  handed to the context, so the registries hold resources by value. An undefined
  \<open>anchors\<close> map reads as the empty map, as \<open>resource.anchors?.get(name)\<close> does.
\<close>

record Resource =
  uri :: "string option"
  node :: addr
  baseUri :: "string option"
  anchors :: "string \<rightharpoonup> addr"

text \<open>
  A \<open>Reference\<close>. Its \<open>target\<close> is assigned after the object has been stored in two
  maps of the context, so references live in a store of their own and the maps hold
  their addresses.
\<close>

record Reference =
  key :: string
  uri :: string
  target :: "val option"

text \<open>
  A \<open>Frame\<close> has identity and a read-only \<open>parent\<close>; both are in the datatype, the
  identity as a number that \<open>pushFrame\<close> draws from a counter of the context. The
  three fields that the unit of work assigns are kept per frame identity in the
  context (\<open>frameSlots\<close>).
\<close>

datatype Frame = Frame (frameId: nat) (parent: "Frame option")

datatype nodeKey = KeyStr string | KeyNum nat

record FrameSlots =
  baseUri :: "string option"
  nodeKey :: "nodeKey option"
  node :: "val option"

text \<open>
  The \<open>Context\<close>. The three look-up maps read the same undefined or empty, so they
  are plain maps; \<open>unresolved\<close> is a \<open>Map\<close> in insertion order, or undefined.
  The external resolver \<open>resolveResource\<close> of the context returns a resource,
  \<open>undefined\<close>, or throws. Its answer to a URI may differ from one call to the
  next (it may build a new resource each time), so it is a function of the URI and
  of the number of calls made before, which the context counts in \<open>resolverCalls\<close>.
  The nodes of the resources it returns are nodes of the heap. The context that it
  is also handed is not passed on: the resolver of the model reads and changes
  nothing in it.
\<close>

record Context =
  stack :: "Frame option"
  frameSlots :: "nat \<Rightarrow> FrameSlots"
  nextFrame :: nat
  resolver :: "(string \<Rightarrow> nat \<Rightarrow> error + Resource option) option"
  resolverCalls :: nat
  resources :: "addr \<rightharpoonup> Resource"
  canonical :: "string \<rightharpoonup> Resource"
  references :: "addr \<rightharpoonup> nat"
  unresolved :: "(addr \<times> nat) list option"
  refStore :: "nat \<Rightarrow> Reference"
  nextRef :: nat

text \<open>\<open>Map.prototype.set\<close> and \<open>delete\<close> on an insertion-ordered map.\<close>

fun mapSet :: "('k \<times> 'v) list \<Rightarrow> 'k \<Rightarrow> 'v \<Rightarrow> ('k \<times> 'v) list" where
  "mapSet [] k v = [(k, v)]"
| "mapSet ((k', v') # m) k v = (if k' = k then (k, v) # m else (k', v') # mapSet m k v)"

definition mapDelete :: "('k \<times> 'v) list \<Rightarrow> 'k \<Rightarrow> ('k \<times> 'v) list" where
  "mapDelete m k = filter (\<lambda>(k', v). k' \<noteq> k) m"

definition createFrame :: "nat \<Rightarrow> Frame option \<Rightarrow> Frame \<times> FrameSlots" where
  "createFrame i par =
     (Frame i par, \<lparr>FrameSlots.baseUri = None, nodeKey = None, FrameSlots.node = None\<rparr>)"

text \<open>\<open>pushFrame\<close> and \<open>popFrame\<close>. The hook \<open>context.createFrame\<close> is undefined, as
  \<open>createContext\<close> leaves it, so \<open>pushFrame\<close> calls \<open>createFrame\<close>.\<close>

definition pushFrame :: "Context \<Rightarrow> Frame \<times> Context" where
  "pushFrame context =
     (case createFrame (nextFrame context) (stack context) of
        (frame, slots) \<Rightarrow>
          (frame, context\<lparr>stack := Some frame,
                          frameSlots := (frameSlots context)(nextFrame context := slots),
                          nextFrame := Suc (nextFrame context)\<rparr>))"

definition popFrame :: "Context \<Rightarrow> Frame option \<times> Context" where
  "popFrame context =
     (let frame = stack context;
          par = (case frame of None \<Rightarrow> None | Some f \<Rightarrow> Frame.parent f)
      in (frame, context\<lparr>stack := par\<rparr>))"

text \<open>
  Asynchronous work. A unit of work returns a plain value or a promise. A promise is
  the rest of the work: the event loop runs it later, in the context of that moment;
  it then settles with a value or a rejection and may have changed the context.
\<close>

datatype 'r promise = Promise "Context \<Rightarrow> (error + 'r) \<times> Context"

datatype 'r completion = Value 'r | Pending "'r promise"

fun settle :: "'r promise \<Rightarrow> Context \<Rightarrow> (error + 'r) \<times> Context" where
  "settle (Promise k) context = k context"

text \<open>
  \<open>nestFrame\<close> with its helpers \<open>unnestFrame\<close> and \<open>unwindFrame\<close>. The unit of work
  \<open>fn\<close> receives the frame and may change the context; it returns a result or
  throws. A result that is a promise is chained (\<open>result.then\<close>) with the two
  helpers, which then run when the promise settles. \<open>unwindFrame\<close> always throws,
  so nothing follows the \<open>catch\<close> block.
\<close>

definition unnestFrame :: "Context \<Rightarrow> Frame \<Rightarrow> 'r \<Rightarrow> (error + 'r) \<times> Context" where
  "unnestFrame context frame result =
     (if stack context \<noteq> Some frame then
        (Inl (Error ''Stack frame was replaced during execution''), context)
      else (Inr result, snd (popFrame context)))"

definition unwindFrame :: "Context \<Rightarrow> Frame \<Rightarrow> error \<Rightarrow> (error + 'r) \<times> Context" where
  "unwindFrame context frame e =
     (Inl e, if stack context = Some frame then snd (popFrame context) else context)"

definition nestFrame ::
  "Context \<Rightarrow> (Frame \<Rightarrow> Context \<Rightarrow> (error + 'r completion) \<times> Context) \<Rightarrow>
     (error + 'r completion) \<times> Context" where
  "nestFrame context fn =
     (case pushFrame context of
        (frame, context1) \<Rightarrow>
          (case fn frame context1 of
             (Inl e, context2) \<Rightarrow> unwindFrame context2 frame e
           | (Inr (Value result), context2) \<Rightarrow>
               (case unnestFrame context2 frame result of
                  (Inl e, context3) \<Rightarrow> (Inl e, context3)
                | (Inr r, context3) \<Rightarrow> (Inr (Value r), context3))
           | (Inr (Pending p), context2) \<Rightarrow>
               (Inr (Pending (Promise (\<lambda>later.
                  case settle p later of
                    (Inr r, settled) \<Rightarrow> unnestFrame settled frame r
                  | (Inl e, settled) \<Rightarrow> unwindFrame settled frame e))), context2)))"

text \<open>\<open>String(key)\<close> of a node key.\<close>

fun keyString :: "nodeKey \<Rightarrow> string" where
  "keyString (KeyStr s) = s"
| "keyString (KeyNum n) = showNat n"

text \<open>\<open>currentLocation(context, frame)\<close>; the first argument of \<open>frameLocation\<close> is a
  frame, and \<open>currentLocation\<close> starts it at the top of the stack.\<close>

fun frameLocation :: "Context \<Rightarrow> Frame \<Rightarrow> string" where
  "frameLocation context (Frame i par) =
     (let slots = frameSlots context i;
          resource = (case FrameSlots.node slots of Some (Ptr a) \<Rightarrow> resources context a | _ \<Rightarrow> None)
      in case (case resource of None \<Rightarrow> None | Some r \<Rightarrow> Resource.uri r) of
           Some u \<Rightarrow> u
         | None \<Rightarrow>
             (let loc = (case par of
                           Some p \<Rightarrow> (let u = frameLocation context p
                                      in if CHR ''#'' \<in> set u then u else u @ ''#'')
                         | None \<Rightarrow> ''#'')
              in case nodeKey slots of
                   Some k \<Rightarrow> loc @ ''/'' @ escapePointer (keyString k)
                 | None \<Rightarrow> loc))"

definition currentLocation :: "Context \<Rightarrow> string" where
  "currentLocation context = (case stack context of None \<Rightarrow> [] | Some frame \<Rightarrow> frameLocation context frame)"

section \<open>Resources (\<open>resource.ts\<close>)\<close>

definition createResource :: "string option \<Rightarrow> addr \<Rightarrow> Resource" where
  "createResource canonicalUri n =
     \<lparr>Resource.uri = canonicalUri, Resource.node = n, Resource.baseUri = canonicalUri,
      anchors = Map.empty\<rparr>"

definition setResource :: "Context \<Rightarrow> Resource \<Rightarrow> Context" where
  "setResource context resource =
     (let context1 = context\<lparr>resources := (resources context)(Resource.node resource \<mapsto> resource)\<rparr>
      in case Resource.uri resource of
           None \<Rightarrow> context1
         | Some canonicalUri \<Rightarrow>
             (let context2 = context1\<lparr>canonical := (canonical context1)(canonicalUri \<mapsto> resource)\<rparr>
              in if endsWith canonicalUri ''#''
                 then context2\<lparr>canonical := (canonical context2)(butlast canonicalUri \<mapsto> resource)\<rparr>
                 else context2))"

definition getResourceAnchor :: "Resource \<Rightarrow> string \<Rightarrow> addr option" where
  "getResourceAnchor resource name = anchors resource name"

definition setResourceAnchor :: "Resource \<Rightarrow> string \<Rightarrow> addr \<Rightarrow> Resource" where
  "setResourceAnchor resource name anchor = resource\<lparr>anchors := (anchors resource)(name \<mapsto> anchor)\<rparr>"

text \<open>\<open>resolveResource\<close>: the registry first, then the external resolver, whose
  resource is registered before it is returned. Awaiting the resolver is a call.\<close>

definition resolveResource :: "Context \<Rightarrow> string \<Rightarrow> (error + Resource option) \<times> Context" where
  "resolveResource context canonicalUri =
     (case canonical context canonicalUri of
        Some resource \<Rightarrow> (Inr (Some resource), context)
      | None \<Rightarrow>
          (case resolver context of
             None \<Rightarrow> (Inr None, context)
           | Some r \<Rightarrow>
               (let context1 = context\<lparr>resolverCalls := Suc (resolverCalls context)\<rparr>
                in case r canonicalUri (resolverCalls context) of
                     Inl e \<Rightarrow> (Inl e, context1)
                   | Inr None \<Rightarrow> (Inr None, context1)
                   | Inr (Some resource) \<Rightarrow>
                       (Inr (Some resource), setResource context1 resource))))"

definition resolveResourceFragment :: "Context \<Rightarrow> heap \<Rightarrow> Resource \<Rightarrow> string \<Rightarrow> error + val" where
  "resolveResourceFragment context h resource fragment =
     (if length fragment = 0 then Inr (Ptr (Resource.node resource))
      else if startsWith fragment ''/'' then resolvePointer h fragment (Ptr (Resource.node resource))
      else case getResourceAnchor resource fragment of
             None \<Rightarrow>
               Inl (ResolutionError
                     (''Cannot resolve plain name fragment '' @ JSON_stringify fragment @
                      '' because the current resource has no corresponding anchor'')
                     (Some (currentLocation context)) [])
           | Some n \<Rightarrow> Inr (Ptr n))"

text \<open>\<open>s.split(sep)\<close> for a one-character separator; \<open>uri.split("#", 2)\<close> keeps the
  first two pieces.\<close>

fun splitOn :: "char \<Rightarrow> string \<Rightarrow> string list" where
  "splitOn sep [] = [[]]"
| "splitOn sep (c # s) =
     (if c = sep then [] # splitOn sep s
      else (case splitOn sep s of p # ps \<Rightarrow> (c # p) # ps | [] \<Rightarrow> [[c]]))"

definition resolveResourceUri ::
  "Context \<Rightarrow> heap \<Rightarrow> Resource option \<Rightarrow> string \<Rightarrow> (error + val) \<times> Context" where
  "resolveResourceUri context h resource uriRef =
     (let parts = take 2 (splitOn (CHR ''#'') uriRef);
          canonicalUri = hd parts;
          fragment = (if 1 < length parts then Some (parts ! 1) else None);
          resolveFragment = (\<lambda>context resource.
             (case fragment of
                Some f \<Rightarrow> if length f \<noteq> 0
                          then (resolveResourceFragment context h resource f, context)
                          else (Inr (Ptr (Resource.node resource)), context)
              | None \<Rightarrow> (Inr (Ptr (Resource.node resource)), context)))
      in if length canonicalUri \<noteq> 0 then
           (case resolveResource context canonicalUri of
              (Inl e, context1) \<Rightarrow> (Inl e, context1)
            | (Inr None, context1) \<Rightarrow>
                (Inl (ResolutionError (''Unknown resource '' @ JSON_stringify canonicalUri)
                       (Some (currentLocation context1)) []), context1)
            | (Inr (Some resource1), context1) \<Rightarrow> resolveFragment context1 resource1)
         else
           (case resource of
              None \<Rightarrow>
                (Inl (ResolutionError
                       (''Cannot resolve relative URI reference '' @ JSON_stringify uriRef @
                        '' because the stack has no base node'')
                       (Some (currentLocation context)) []), context)
            | Some resource1 \<Rightarrow> resolveFragment context resource1))"

section \<open>Specification-side notions\<close>

text \<open>
  The definitions of this section are not translations of source functions. They say
  in the specification's words what the source functions are compared with.

  Pointer addressing, token by token: \<open>walkTokens h node done tokens\<close> follows the
  tokens from \<open>node\<close> and returns the node reached, or the tokens up to and
  including the first one that is absent (\<open>done\<close> are the tokens already followed).
\<close>

fun walkTokens :: "heap \<Rightarrow> val \<Rightarrow> string list \<Rightarrow> string list \<Rightarrow> string list + val" where
  "walkTokens h n done [] = Inr n"
| "walkTokens h n done (t # ts) =
     (case getChild h n t of
        None \<Rightarrow> Inl (done @ [t])
      | Some next \<Rightarrow> walkTokens h next (done @ [t]) ts)"

text \<open>The error that \<open>resolvePointer\<close> throws for \<open>pointer\<close> when the last token of
  \<open>absent\<close> is the first absent one: its location is the pointer up to that token.\<close>

definition absentError :: "string \<Rightarrow> string list \<Rightarrow> error" where
  "absentError pointer absent = ResolutionError
      (''Property '' @ JSON_stringify (last absent) @
       '' not found while resolving JSON pointer '' @ JSON_stringify pointer)
      (Some (formatPointer absent)) []"

text \<open>A URI reference split at its first \<open>#\<close>: the part before it, and the part after
  it, which is empty when there is no \<open>#\<close> and ends before a further \<open>#\<close> if there is
  one (a URI reference has at most one).\<close>

definition canonicalPart :: "string \<Rightarrow> string" where
  "canonicalPart uriRef = takeWhile (\<lambda>c. c \<noteq> CHR ''#'') uriRef"

definition fragmentPart :: "string \<Rightarrow> string" where
  "fragmentPart uriRef =
     takeWhile (\<lambda>c. c \<noteq> CHR ''#'') (drop 1 (dropWhile (\<lambda>c. c \<noteq> CHR ''#'') uriRef))"

text \<open>\<open>createContext(options)\<close> with at most the external resolver among the options.\<close>

definition createContext :: "(string \<Rightarrow> nat \<Rightarrow> error + Resource option) option \<Rightarrow> Context" where
  "createContext r =
     \<lparr>stack = None,
      frameSlots = (\<lambda>i. \<lparr>FrameSlots.baseUri = None, nodeKey = None, FrameSlots.node = None\<rparr>),
      nextFrame = 0, resolver = r, resolverCalls = 0, resources = Map.empty,
      canonical = Map.empty,
      references = Map.empty, unresolved = None,
      refStore = (\<lambda>i. \<lparr>key = [], uri = [], target = None\<rparr>), nextRef = 0\<rparr>"

section \<open>References (\<open>reference.ts\<close>)\<close>

definition createReference :: "string \<Rightarrow> string \<Rightarrow> Reference" where
  "createReference k u = \<lparr>key = k, uri = u, target = None\<rparr>"

text \<open>\<open>getReference\<close>: a \<open>WeakMap\<close> has no entry for a primitive, and the built-in
  objects are not registered as reference nodes. The address of the reference object
  is \<open>referenceOf\<close>.\<close>

definition referenceOf :: "Context \<Rightarrow> val \<Rightarrow> nat option" where
  "referenceOf context n = (case n of Ptr a \<Rightarrow> references context a | _ \<Rightarrow> None)"

definition getReference :: "Context \<Rightarrow> val \<Rightarrow> Reference option" where
  "getReference context n = map_option (refStore context) (referenceOf context n)"

text \<open>\<open>registerReference\<close> returns the reference object (its address) and the context.\<close>

definition registerReference :: "Context \<Rightarrow> addr \<Rightarrow> string \<Rightarrow> string \<Rightarrow> nat \<times> Context" where
  "registerReference context n k u =
     (case references context n of
        Some reference \<Rightarrow> (reference, context)
      | None \<Rightarrow>
          (let reference = nextRef context;
               context1 = context\<lparr>refStore := (refStore context)(reference := createReference k u),
                                  nextRef := Suc reference\<rparr>;
               context2 = context1\<lparr>references := (references context1)(n \<mapsto> reference)\<rparr>;
               un = (case unresolved context2 of None \<Rightarrow> [] | Some m \<Rightarrow> m)
           in (reference, context2\<lparr>unresolved := Some (mapSet un n reference)\<rparr>)))"

text \<open>
  \<open>resolveReferences\<close>. The \<open>for\<close> loop runs over the entries of \<open>unresolved\<close> in
  insertion order; each turn first deletes its entry from the map of the context.
  Nothing in the model inserts into \<open>unresolved\<close> during the loop, so the entries
  still to come are the rest of the list. The variable \<open>cause\<close> (undefined, one
  error, or an array of at least two) is the list of the errors captured so far.
  The loop awaits \<open>resolveResourceUri\<close>; awaiting is a call here, the resolver being a
  function of the URI.
\<close>

fun drainLoop ::
  "heap \<Rightarrow> Resource option \<Rightarrow> (addr \<times> nat) list \<Rightarrow> Context \<Rightarrow> error list \<Rightarrow>
     (error + error list) \<times> Context" where
  "drainLoop h resource [] context cause = (Inr cause, context)"
| "drainLoop h resource ((n, reference) # rest) context cause =
     (let context1 = context\<lparr>unresolved := map_option (\<lambda>m. mapDelete m n) (unresolved context)\<rparr>
      in case resolveResourceUri context1 h resource (Reference.uri (refStore context1 reference)) of
           (Inr v, context2) \<Rightarrow>
             drainLoop h resource rest
               (context2\<lparr>refStore := (refStore context2)
                            (reference := (refStore context2 reference)\<lparr>target := Some v\<rparr>)\<rparr>)
               cause
         | (Inl e, context2) \<Rightarrow>
             if \<not> isResolutionError e then (Inl e, context2)
             else drainLoop h resource rest context2 (cause @ [e]))"

definition resolveReferences :: "Context \<Rightarrow> heap \<Rightarrow> Resource option \<Rightarrow> (error + unit) \<times> Context" where
  "resolveReferences context h resource =
     (case unresolved context of
        None \<Rightarrow> (Inr (), context)
      | Some un \<Rightarrow>
          (case drainLoop h resource un context [] of
             (Inl e, context1) \<Rightarrow> (Inl e, context1)
           | (Inr cause, context1) \<Rightarrow>
               if 2 \<le> length cause then
                 (Inl (ResolutionError
                        (foldl (\<lambda>message e. message @ [CHR 0x0A] @ ''  '' @ errorMessage e)
                           ''Unable to resolve multiple references'' cause)
                        (Some (currentLocation context1)) cause), context1)
               else if cause \<noteq> [] then (Inl (hd cause), context1)
               else (Inr (), context1)))"

section \<open>Specification-side notions for batch resolution\<close>

text \<open>
  The specification's account of \<open>resolve all\<close>, one entry at a time: remove the
  entry, resolve its URI against the base resource, and on success set the target.
  \<open>resolveEach\<close> lists, for every entry in order, what its resolution returned and
  the context after it. It neither stops nor aggregates.
\<close>

definition resolveEntry ::
  "heap \<Rightarrow> Resource option \<Rightarrow> addr \<times> nat \<Rightarrow> Context \<Rightarrow> (error + val) \<times> Context" where
  "resolveEntry h resource entry context =
     (let removed = context\<lparr>unresolved := map_option (\<lambda>m. mapDelete m (fst entry)) (unresolved context)\<rparr>;
          attempt = resolveResourceUri removed h resource (Reference.uri (refStore removed (snd entry)))
      in case fst attempt of
           Inr v \<Rightarrow> (Inr v, (snd attempt)\<lparr>refStore := (refStore (snd attempt))
                        (snd entry := (refStore (snd attempt) (snd entry))\<lparr>target := Some v\<rparr>)\<rparr>)
         | Inl e \<Rightarrow> (Inl e, snd attempt))"

fun resolveEach ::
  "heap \<Rightarrow> Resource option \<Rightarrow> (addr \<times> nat) list \<Rightarrow> Context \<Rightarrow> ((error + val) \<times> Context) list" where
  "resolveEach h resource [] context = []"
| "resolveEach h resource (entry # rest) context =
     resolveEntry h resource entry context #
     resolveEach h resource rest (snd (resolveEntry h resource entry context))"

text \<open>The failures among the outcomes, in order, and the failures that are not
  resolution errors.\<close>

fun failuresOf :: "((error + val) \<times> Context) list \<Rightarrow> error list" where
  "failuresOf [] = []"
| "failuresOf ((Inl e, c) # tr) = e # failuresOf tr"
| "failuresOf ((Inr v, c) # tr) = failuresOf tr"

definition isFatal :: "(error + val) \<times> Context \<Rightarrow> bool" where
  "isFatal oc = (case fst oc of Inl e \<Rightarrow> \<not> isResolutionError e | Inr v \<Rightarrow> False)"

text \<open>The message of the aggregate error: the heading, then one line per cause.\<close>

definition aggregateMessage :: "error list \<Rightarrow> string" where
  "aggregateMessage errs =
     ''Unable to resolve multiple references'' @
     concat (map (\<lambda>e. [CHR 0x0A] @ ''  '' @ errorMessage e) errs)"

text \<open>The context after the last entry.\<close>

definition finalContext :: "Context \<Rightarrow> ((error + val) \<times> Context) list \<Rightarrow> Context" where
  "finalContext context tr = (if tr = [] then context else snd (last tr))"

text \<open>
  The external resolver answers \<open>u\<close> under the URI asked for when every resource that
  it returns for \<open>u\<close>, at whatever call, has \<open>u\<close> as its canonical URI, with or
  without a \<open>#\<close> at its end; this matters only while the registry does not know
  \<open>u\<close>. It answers under the requested URIs for the references \<open>un\<close> when it does
  so for the canonical part of the URI of each of them.
\<close>

definition resolverAnswers :: "Context \<Rightarrow> string \<Rightarrow> bool" where
  "resolverAnswers context u =
     (case resolver context of
        None \<Rightarrow> True
      | Some f \<Rightarrow>
          canonical context u = None \<longrightarrow>
          (\<forall>calls r. f u calls = Inr (Some r) \<longrightarrow>
             Resource.uri r = Some u \<or> Resource.uri r = Some (u @ ''#'')))"

definition answersUnderRequestedUri :: "Context \<Rightarrow> (addr \<times> nat) list \<Rightarrow> bool" where
  "answersUnderRequestedUri context un =
     (\<forall>(n, reference) \<in> set un.
        resolverAnswers context (canonicalPart (Reference.uri (refStore context reference))))"

text \<open>The resource that the canonical part \<open>u\<close> of a URI stands for: the one that the
  registry knows under \<open>u\<close>, or the base resource when \<open>u\<close> is empty.\<close>

definition standsFor :: "Context \<Rightarrow> Resource option \<Rightarrow> string \<Rightarrow> Resource \<Rightarrow> bool" where
  "standsFor context resource u r =
     (if u \<noteq> [] then canonical context u = Some r else resource = Some r)"


section \<open>Scenarios\<close>

text \<open>
  Concrete contexts in the manner of the repository's tests, used to run the
  definitions. Two reference nodes at the addresses 0 and 1 refer to the URIs \<open>m1\<close>
  and \<open>m2\<close>; the context is created with the given external resolver.
\<close>

definition scenarioHeap :: heap where
  "scenarioHeap =
     [Obj [(''$ref'', Str ''m1'')], Obj [(''$ref'', Str ''m2'')],
      Obj [(''type'', Str ''string'')], Obj [(''type'', Str ''number'')]]"

definition twoReferences :: "(string \<Rightarrow> nat \<Rightarrow> error + Resource option) option \<Rightarrow> Context" where
  "twoReferences r =
     snd (registerReference (snd (registerReference (createContext r) 0 ''$ref'' ''m1''))
            1 ''$ref'' ''m2'')"

text \<open>Resolvers: one that throws a plain \<open>Error\<close>, one that knows \<open>m1\<close> only, one that
  knows both URIs, one that answers with resources registered under other URIs
  than the one asked for, and one that answers \<open>m1\<close> with a resource without
  canonical URI around a node that it makes anew at each call.\<close>

definition throwingResolver :: "string \<Rightarrow> nat \<Rightarrow> error + Resource option" where
  "throwingResolver u calls = Inl (Error ''boom'')"

definition partialResolver :: "string \<Rightarrow> nat \<Rightarrow> error + Resource option" where
  "partialResolver u calls = (if u = ''m1'' then Inr (Some (createResource (Some u) 2)) else Inr None)"

definition fullResolver :: "string \<Rightarrow> nat \<Rightarrow> error + Resource option" where
  "fullResolver u calls =
     (if u = ''m1'' then Inr (Some (createResource (Some u) 2))
      else if u = ''m2'' then Inr (Some (createResource (Some u) 3))
      else Inr None)"

definition crossedResolver :: "string \<Rightarrow> nat \<Rightarrow> error + Resource option" where
  "crossedResolver u calls =
     (if u = ''m1'' then Inr (Some (createResource (Some ''other'') 2))
      else if u = ''m2'' then Inr (Some (createResource (Some ''m1'') 3))
      else Inr None)"

definition buildingResolver :: "string \<Rightarrow> nat \<Rightarrow> error + Resource option" where
  "buildingResolver u calls =
     (if u = ''m1'' then Inr (Some (createResource None (2 + calls))) else Inr None)"

text \<open>One reference node, at address 0, that refers to \<open>m1\<close>.\<close>

definition oneReference :: "(string \<Rightarrow> nat \<Rightarrow> error + Resource option) option \<Rightarrow> Context" where
  "oneReference r = snd (registerReference (createContext r) 0 ''$ref'' ''m1'')"

text \<open>The error of \<open>resolveResourceUri\<close> for an unknown canonical URI, thrown with an
  empty stack.\<close>

definition unknownResource :: "string \<Rightarrow> error" where
  "unknownResource u = ResolutionError (''Unknown resource '' @ JSON_stringify u) (Some []) []"

section \<open>Tree shaking (\<open>reference.ts\<close>)\<close>

text \<open>\<open>s.lastIndexOf(c)\<close>, \<open>-1\<close> when \<open>c\<close> does not occur.\<close>

definition lastIndexOf :: "string \<Rightarrow> char \<Rightarrow> int" where
  "lastIndexOf s c =
     (if c \<in> set s then int (length s - 1 - length (takeWhile (\<lambda>x. x \<noteq> c) (rev s))) else - 1)"

text \<open>The name derived from the URI of a reference:
  \<open>uri.slice(Math.max(uri.lastIndexOf("/"), uri.lastIndexOf("#")) + 1)\<close>.\<close>

definition uriName :: "string \<Rightarrow> string" where
  "uriName u = drop (nat (max (lastIndexOf u (CHR ''/'')) (lastIndexOf u (CHR ''#'')) + 1)) u"

text \<open>
  The options of \<open>treeShakeReferences\<close>. The \<open>transform\<close> callback receives the heap
  with the node and returns its node with the heap it leaves behind.
\<close>

record ShakeOptions =
  roots :: "addr list"
  defsUri :: string
  transform :: "(heap \<Rightarrow> val \<Rightarrow> val \<times> heap) option"

text \<open>
  The variables that the two local functions close over, with the heap and the
  context they work on: the set \<open>visited\<close>, the map \<open>refs\<close> from reference targets to
  names (keys compared as \<open>Map\<close> does: objects by identity, primitives by value),
  and \<open>defs\<close>, undefined until the first definition is written, whose properties
  may hold \<open>undefined\<close> (the placeholder written before a target is rewritten).
  \<open>defs\<close> is made by the literal \<open>{}\<close>, so its prototype is \<open>Object.prototype\<close>;
  the record holds its own properties.
\<close>

record Shake =
  visited :: "val list"
  refs :: "(val \<times> string) list"
  defs :: "(string \<times> val option) list option"
  sheap :: heap
  sctx :: Context

text \<open>The loop \<open>while (key in defs) { key = name + counter; counter += 1; }\<close> over
  the property names \<open>ks\<close> of \<open>defs\<close>, its own and the inherited ones. It ends
  because the candidates are pairwise different and \<open>ks\<close> is finite.\<close>

lemma of_char_digitChar: "d < 10 \<Longrightarrow> (of_char (digitChar d) :: nat) = 48 + d"
  by (simp add: digitChar_def)

lemma readNat_snoc: "readNat (s @ [c]) = 10 * readNat s + (of_char c - 48)"
  by (simp add: readNat_def)

lemma readNat_showNat: "readNat (showNat n) = n"
proof (induction n rule: showNat.induct)
  case (1 n)
  show ?case
  proof (cases "n < 10")
    case True
    then show ?thesis
      by (subst showNat.simps) (simp add: readNat_def of_char_digitChar)
  next
    case False
    with 1 have "readNat (showNat (n div 10)) = n div 10" by simp
    with False show ?thesis
      by (subst showNat.simps) (simp add: readNat_snoc of_char_digitChar)
  qed
qed

lemma inj_showNat: "inj showNat"
  by (rule inj_on_inverseI [of _ readNat]) (rule readNat_showNat)

lemma finite_candidates: "finite {c. name @ showNat c \<in> set ks}"
proof -
  have "inj (\<lambda>c. name @ showNat c)"
    using inj_showNat by (auto simp: inj_def)
  then have "finite ((\<lambda>c. name @ showNat c) -` set ks)"
    by (intro finite_vimageI) simp_all
  then show ?thesis by (simp add: vimage_def)
qed

function keyLoop :: "string list \<Rightarrow> string \<Rightarrow> string \<Rightarrow> nat \<Rightarrow> string" where
  "keyLoop ks name k counter =
     (if k \<in> set ks then keyLoop ks name (name @ showNat counter) (counter + 1) else k)"
  by pat_completeness auto
termination
proof (relation "measure (\<lambda>(ks, name, k, counter).
          2 * card {c. counter \<le> c \<and> name @ showNat c \<in> set ks} + (if k \<in> set ks then 1 else 0))",
       goal_cases)
  case 1
  show ?case by simp
next
  case (2 ks name k counter)
  let ?A = "{c. counter \<le> c \<and> name @ showNat c \<in> set ks}"
  let ?B = "{c. counter + 1 \<le> c \<and> name @ showNat c \<in> set ks}"
  have fin: "finite ?A" using finite_candidates [of name ks] by (rule rev_finite_subset) auto
  have sub: "?B \<subseteq> ?A" by auto
  show ?case
  proof (cases "name @ showNat counter \<in> set ks")
    case True
    then have "counter \<in> ?A" "counter \<notin> ?B" by auto
    with sub have "?B \<subset> ?A" by blast
    with fin have "card ?B < card ?A" by (rule psubset_card_mono)
    with 2 True show ?thesis by simp
  next
    case False
    from fin sub have "card ?B \<le> card ?A" by (rule card_mono)
    with 2 False show ?thesis by simp
  qed
qed

declare keyLoop.simps [simp del]

text \<open>A \<open>for\<close> loop whose body may fail to return.\<close>

fun foldOption :: "('a \<Rightarrow> 's \<Rightarrow> 's option) \<Rightarrow> 'a list \<Rightarrow> 's \<Rightarrow> 's option" where
  "foldOption f [] s = Some s"
| "foldOption f (x # xs) s = (case f x s of None \<Rightarrow> None | Some s' \<Rightarrow> foldOption f xs s')"

text \<open>
  \<open>collectReferences\<close>, the mark phase. The recursion follows reference targets and
  children through the heap; the first argument bounds its depth, and \<^term>\<open>None\<close>
  says that the bound was reached.
\<close>

fun collectReferences :: "nat \<Rightarrow> ShakeOptions \<Rightarrow> val \<Rightarrow> Shake \<Rightarrow> Shake option" where
  "collectReferences 0 options n s = None"
| "collectReferences (Suc fuel) options n s =
     (if \<not> isObject n \<or> n \<in> set (visited s) then Some s
      else
        (let s1 = s\<lparr>visited := visited s @ [n]\<rparr>;
             children = (\<lambda>s'. foldOption (\<lambda>item. collectReferences fuel options item)
                                 (case n of Ptr a \<Rightarrow> objectValues (heapGet (sheap s') a) | _ \<Rightarrow> [])
                                 s')
         in case getReference (sctx s1) n of
              None \<Rightarrow> children s1
            | Some ref \<Rightarrow>
                (case target ref of
                   None \<Rightarrow> children s1
                 | Some t \<Rightarrow>
                     if t \<in> Ptr ` set (roots options) then children s1
                     else
                       (let s2 = (if map_of (refs s1) t = None then
                                    (let name = uriName (Reference.uri ref);
                                         k = (case defs s1 of
                                                None \<Rightarrow> name
                                              | Some d \<Rightarrow>
                                                  keyLoop (map fst d @ ''__proto__'' # objectPrototypeKeys)
                                                    name name 1)
                                     in s1\<lparr>refs := refs s1 @ [(t, k)]\<rparr>)
                                  else s1)
                        in case collectReferences fuel options t s2 of
                             None \<Rightarrow> None
                           | Some s3 \<Rightarrow> children s3))))"

declare collectReferences.simps [simp del]

text \<open>A loop that rewrites the items of an array or the values of an object:
  \<open>isObject(item) ? rewriteNode(item) : item\<close>.\<close>

fun rewriteItems ::
  "(val \<Rightarrow> Shake \<Rightarrow> (val \<times> Shake) option) \<Rightarrow> val list \<Rightarrow> Shake \<Rightarrow> (val list \<times> Shake) option" where
  "rewriteItems f [] s = Some ([], s)"
| "rewriteItems f (item # items) s =
     (case (if isObject item then f item s else Some (item, s)) of
        None \<Rightarrow> None
      | Some (item', s1) \<Rightarrow>
          (case rewriteItems f items s1 of
             None \<Rightarrow> None
           | Some (items', s2) \<Rightarrow> Some (item' # items', s2)))"

text \<open>Writing a property of \<open>defs\<close>, reading one (\<open>defs[refName]\<close>), and the test
  \<open>refName in defs\<close>; the last two find the properties of \<open>Object.prototype\<close> too.\<close>

definition setDef :: "Shake \<Rightarrow> string \<Rightarrow> val option \<Rightarrow> Shake" where
  "setDef s name v = s\<lparr>defs := Some (mapSet (case defs s of None \<Rightarrow> [] | Some d \<Rightarrow> d) name v)\<rparr>"

definition getDef :: "Shake \<Rightarrow> string \<Rightarrow> val option" where
  "getDef s name =
     (case defs s of
        None \<Rightarrow> None
      | Some d \<Rightarrow>
          (case map_of d name of
             Some v \<Rightarrow> v
           | None \<Rightarrow>
               if name = ''__proto__'' then Some (Proto ObjectPrototype)
               else if name \<in> set objectPrototypeKeys then Some (Fn ObjectPrototype name)
               else None))"

definition inDefs :: "Shake \<Rightarrow> string \<Rightarrow> bool" where
  "inDefs s name =
     (case defs s of
        None \<Rightarrow> False
      | Some d \<Rightarrow> name \<in> fst ` set d \<or> name = ''__proto__'' \<or> name \<in> set objectPrototypeKeys)"

text \<open>Registering the reference of a rewritten reference node (\<open>createReference\<close>, the
  assignment of its target, and \<open>context.references.set\<close>).\<close>

definition registerRewritten :: "Context \<Rightarrow> addr \<Rightarrow> string \<Rightarrow> string \<Rightarrow> val option \<Rightarrow> Context" where
  "registerRewritten context a refKey refUri t =
     context\<lparr>refStore := (refStore context)(nextRef context := (createReference refKey refUri)\<lparr>target := t\<rparr>),
             nextRef := Suc (nextRef context),
             references := (references context)(a \<mapsto> nextRef context)\<rparr>"

text \<open>
  The object that the assignments \<open>result[key] = value\<close> build from \<open>{}\<close>, for the
  entries in their order. An assignment to \<open>__proto__\<close> reaches the setter of
  \<open>Object.prototype\<close>: it makes no property, and it replaces the prototype of
  \<open>result\<close> when the value is an object, a function or \<open>null\<close>.
\<close>

definition assignEntries :: "(string \<times> val) list \<Rightarrow> obj" where
  "assignEntries entries =
     (let own = filter (\<lambda>(key, v). key \<noteq> ''__proto__'') entries
      in case map_of entries ''__proto__'' of
           None \<Rightarrow> Obj own
         | Some p \<Rightarrow>
             (case p of
                Null \<Rightarrow> Derived p own
              | Ptr a \<Rightarrow> Derived p own
              | Fn q name \<Rightarrow> Derived p own
              | Proto q \<Rightarrow> if q = ObjectPrototype then Obj own else Derived p own
              | _ \<Rightarrow> Obj own))"

text \<open>
  \<open>rewriteNode\<close>, the rewrite phase; the first argument bounds the depth of the
  recursion as above. A new array or object is built as a value and allocated when
  it is complete.
\<close>

fun rewriteNode :: "nat \<Rightarrow> ShakeOptions \<Rightarrow> val \<Rightarrow> Shake \<Rightarrow> (val \<times> Shake) option" where
  "rewriteNode 0 options n s = None"
| "rewriteNode (Suc fuel) options n s =
     (let ref = getReference (sctx s) n;
          refName = (case ref of
                       None \<Rightarrow> None
                     | Some r \<Rightarrow> (case target r of None \<Rightarrow> None | Some t \<Rightarrow> map_of (refs s) t));
          rewritten =
            (case refName of
               Some name \<Rightarrow>
                 (let s0 = s\<lparr>defs := Some (case defs s of None \<Rightarrow> [] | Some d \<Rightarrow> d)\<rparr>
                  in case (if \<not> inDefs s0 name then
                             (case rewriteNode fuel options
                                     (case Option.bind ref target of Some t \<Rightarrow> t | None \<Rightarrow> Null)
                                     (setDef s0 name None) of
                                None \<Rightarrow> None
                              | Some (v, s') \<Rightarrow> Some (setDef s' name (Some v)))
                           else Some s0) of
                       None \<Rightarrow> None
                     | Some s1 \<Rightarrow>
                         (let refKey = (case ref of Some r \<Rightarrow> key r | None \<Rightarrow> []);
                              refUri = defsUri options @ ''/'' @ escapePointer name
                          in case alloc (sheap s1) (Obj [(refKey, Str refUri)]) of
                               (a, h') \<Rightarrow>
                                 Some (Ptr a,
                                       s1\<lparr>sheap := h',
                                          sctx := registerRewritten (sctx s1) a refKey refUri
                                                    (getDef s1 name)\<rparr>)))
             | None \<Rightarrow>
                 (case (case n of
                          Ptr a \<Rightarrow> Some (heapGet (sheap s) a)
                        | Proto p \<Rightarrow> Some (if p = ArrayPrototype then Arr [] else Obj [])
                        | _ \<Rightarrow> None) of
                    Some (Arr items) \<Rightarrow>
                      (case rewriteItems (rewriteNode fuel options) items s of
                         None \<Rightarrow> None
                       | Some (items', s1) \<Rightarrow>
                           (case alloc (sheap s1) (Arr items') of
                              (a, h') \<Rightarrow> Some (Ptr a, s1\<lparr>sheap := h'\<rparr>)))
                  | Some (Obj entries) \<Rightarrow>
                      (case rewriteItems (rewriteNode fuel options) (map snd entries) s of
                         None \<Rightarrow> None
                       | Some (values', s1) \<Rightarrow>
                           (case alloc (sheap s1) (assignEntries (zip (map fst entries) values')) of
                              (a, h') \<Rightarrow> Some (Ptr a, s1\<lparr>sheap := h'\<rparr>)))
                  | Some (Derived p entries) \<Rightarrow>
                      (case rewriteItems (rewriteNode fuel options) (map snd entries) s of
                         None \<Rightarrow> None
                       | Some (values', s1) \<Rightarrow>
                           (case alloc (sheap s1) (assignEntries (zip (map fst entries) values')) of
                              (a, h') \<Rightarrow> Some (Ptr a, s1\<lparr>sheap := h'\<rparr>)))
                  | None \<Rightarrow> Some (n, s)))
      in case rewritten of
           None \<Rightarrow> None
         | Some (n', s2) \<Rightarrow>
             (case transform options of
                None \<Rightarrow> Some (n', s2)
              | Some f \<Rightarrow> (case f (sheap s2) n' of (n'', h') \<Rightarrow> Some (n'', s2\<lparr>sheap := h'\<rparr>))))"

declare rewriteNode.simps [simp del]

text \<open>\<open>treeShakeReferences\<close> returns the rewritten roots and \<open>defs\<close>; the model adds
  the heap and the context it leaves behind.\<close>

record ShakeResult =
  newRoots :: "val list"
  newDefs :: "(string \<times> val option) list option"
  newHeap :: heap
  newContext :: Context

definition newShake :: "Context \<Rightarrow> heap \<Rightarrow> Shake" where
  "newShake context h = \<lparr>visited = [], refs = [], defs = None, sheap = h, sctx = context\<rparr>"

text \<open>The first loop of \<open>treeShakeReferences\<close>: \<open>collectReferences\<close> for each root.\<close>

definition markPhase :: "nat \<Rightarrow> Context \<Rightarrow> heap \<Rightarrow> ShakeOptions \<Rightarrow> Shake option" where
  "markPhase fuel context h options =
     foldOption (\<lambda>root. collectReferences fuel options (Ptr root)) (roots options)
       (newShake context h)"

definition treeShakeReferences ::
  "nat \<Rightarrow> Context \<Rightarrow> heap \<Rightarrow> ShakeOptions \<Rightarrow> ShakeResult option" where
  "treeShakeReferences fuel context h options =
     (case markPhase fuel context h options of
        None \<Rightarrow> None
      | Some s \<Rightarrow>
          (case rewriteItems (rewriteNode fuel options) (map Ptr (roots options)) s of
             None \<Rightarrow> None
           | Some (rs, s') \<Rightarrow>
               Some \<lparr>newRoots = rs, newDefs = defs s', newHeap = sheap s', newContext = sctx s'\<rparr>))"

text \<open>
  Scenarios for tree shaking. A context in which the given nodes are references that
  have been resolved to the given targets.
\<close>

definition resolvedContext :: "(addr \<times> string \<times> val) list \<Rightarrow> Context" where
  "resolvedContext rs =
     foldl (\<lambda>context (a, u, t).
              (case registerReference context a ''$ref'' u of
                 (reference, context1) \<Rightarrow>
                   context1\<lparr>unresolved := map_option (\<lambda>m. mapDelete m a) (unresolved context1),
                            refStore := (refStore context1)
                              (reference := (refStore context1 reference)\<lparr>target := Some t\<rparr>)\<rparr>))
       (createContext None) rs"

text \<open>Two reference nodes under one root whose URIs end in the same name and whose
  targets are two different nodes.\<close>

definition collisionHeap :: heap where
  "collisionHeap =
     [Obj [(''p'', Ptr 1), (''q'', Ptr 2)],
      Obj [(''$ref'', Str ''a.json#/item'')],
      Obj [(''$ref'', Str ''b.json#/item'')],
      Obj [(''type'', Str ''string'')],
      Obj [(''type'', Str ''number'')]]"

definition collisionContext :: Context where
  "collisionContext = resolvedContext [(1, ''a.json#/item'', Ptr 3), (2, ''b.json#/item'', Ptr 4)]"

definition collisionOptions :: ShakeOptions where
  "collisionOptions = \<lparr>roots = [0], defsUri = ''#/components/schemas'', transform = None\<rparr>"

text \<open>
  The self-referential graph: a root that holds a person node under \<open>$defs\<close>; the
  person node has the given other properties and a property \<open>friend\<close>, a reference
  node with the given URI that has been resolved to the person node itself.
\<close>

definition personHeap :: "(string \<times> val) list \<Rightarrow> string \<Rightarrow> heap" where
  "personHeap props u =
     [Obj [(''$defs'', Ptr 1)],
      Obj [(''person'', Ptr 2)],
      Obj (props @ [(''friend'', Ptr 3)]),
      Obj [(''$ref'', Str u)]]"

definition personContext :: "string \<Rightarrow> Context" where
  "personContext u = resolvedContext [(3, u, Ptr 2)]"

definition personOptions :: "string \<Rightarrow> ShakeOptions" where
  "personOptions d = \<lparr>roots = [0], defsUri = d, transform = None\<rparr>"

text \<open>
  Notions for the frame property of the rewrite. A heap extends another when the cells
  of the other are all there, unchanged. A value is freshly allocated above \<open>n\<close> when
  it is an object or array at an address from \<open>n\<close> on. A \<open>transform\<close> callback keeps
  the input \<open>h0\<close> when, on every heap that extends \<open>h0\<close> and for every node that is
  not an object or array of \<open>h0\<close>, it leaves the cells of \<open>h0\<close> as they are (it may
  change the others, such as the node it is given) and returns the node it was given
  or an object or array that is not a node of \<open>h0\<close>.
\<close>

definition heapExtends :: "heap \<Rightarrow> heap \<Rightarrow> bool" where
  "heapExtends h h' = (take (length h) h' = h)"

definition freshAbove :: "nat \<Rightarrow> val \<Rightarrow> bool" where
  "freshAbove n v = (case v of Ptr a \<Rightarrow> n \<le> a | _ \<Rightarrow> False)"

definition transformKeepsInput :: "heap \<Rightarrow> ShakeOptions \<Rightarrow> bool" where
  "transformKeepsInput h0 options =
     (case transform options of
        None \<Rightarrow> True
      | Some f \<Rightarrow>
          (\<forall>h v. heapExtends h0 h \<and> (freshAbove (length h0) v \<or> \<not> isObject v) \<longrightarrow>
                 heapExtends h0 (snd (f h v)) \<and>
                 (fst (f h v) = v \<or> freshAbove (length h0) (fst (f h v)))))"

text \<open>The scenario of the test \<open>applies transformations during rewriting\<close>: its
  transform returns \<open>{ ...node, description: "Added by transform" }\<close> for an object
  with a property \<open>type\<close> (\<open>"type" in node\<close>), and the node it was given otherwise.\<close>

definition describeTransform :: "heap \<Rightarrow> val \<Rightarrow> val \<times> heap" where
  "describeTransform h v =
     (if isObject v \<and> getChild h v ''type'' \<noteq> None then
        (case alloc h (Obj (mapSet (case v of
                                      Ptr a \<Rightarrow>
                                        (case heapGet h a of
                                           Obj ps \<Rightarrow> ps
                                         | Derived p ps \<Rightarrow> ps
                                         | Arr xs \<Rightarrow> zip (map showNat [0 ..< length xs]) xs)
                                    | _ \<Rightarrow> [])
                               ''description'' (Str ''Added by transform''))) of
           (a', h') \<Rightarrow> (Ptr a', h'))
      else (v, h))"

definition describeHeap :: heap where
  "describeHeap =
     [Obj [(''$defs'', Ptr 1), (''properties'', Ptr 2)],
      Obj [(''string'', Ptr 3)],
      Obj [(''name'', Ptr 4)],
      Obj [(''type'', Str ''string'')],
      Obj [(''$ref'', Str ''#/$defs/string'')]]"

definition describeContext :: Context where
  "describeContext = resolvedContext [(4, ''#/$defs/string'', Ptr 3)]"

definition describeOptions :: ShakeOptions where
  "describeOptions =
     \<lparr>roots = [0], defsUri = ''#/components/schemas'', transform = Some describeTransform\<rparr>"

text \<open>A transform that works in place: it sets the property \<open>seen\<close> of the object
  it is given and returns that object.\<close>

definition stampTransform :: "heap \<Rightarrow> val \<Rightarrow> val \<times> heap" where
  "stampTransform h v =
     (case v of
        Ptr a \<Rightarrow>
          (case heapGet h a of
             Obj ps \<Rightarrow> (v, h[a := Obj (mapSet ps ''seen'' (Bool True))])
           | _ \<Rightarrow> (v, h))
      | _ \<Rightarrow> (v, h))"

definition stampOptions :: ShakeOptions where
  "stampOptions =
     \<lparr>roots = [0], defsUri = ''#/components/schemas'', transform = Some stampTransform\<rparr>"

text \<open>A transform that answers every node with one node of the input, and a root
  with that node as its child.\<close>

definition childHeap :: heap where
  "childHeap = [Obj [(''child'', Ptr 1)], Obj [(''type'', Str ''string'')]]"

definition childOptions :: ShakeOptions where
  "childOptions =
     \<lparr>roots = [0], defsUri = ''#/components/schemas'', transform = Some (\<lambda>h v. (Ptr 1, h))\<rparr>"

text \<open>
  The invariant of the rewrite phase over the input heap \<open>h0\<close> and the names \<open>rs\<close>
  given by the mark phase: the cells of \<open>h0\<close> are unchanged, and every definition
  written so far is freshly allocated above \<open>h0\<close>, or is the target it is named for,
  which is no object. \<open>itemOk\<close> says the same of a rewritten node.
\<close>

definition shakeOk :: "heap \<Rightarrow> (val \<times> string) list \<Rightarrow> Shake \<Rightarrow> bool" where
  "shakeOk h0 rs s =
     (heapExtends h0 (sheap s) \<and> refs s = rs \<and>
      (\<forall>name v. (name, Some v) \<in> set (case defs s of None \<Rightarrow> [] | Some d \<Rightarrow> d) \<longrightarrow>
          freshAbove (length h0) v \<or> (\<not> isObject v \<and> (v, name) \<in> set rs)))"

definition itemOk :: "nat \<Rightarrow> val \<Rightarrow> val \<Rightarrow> bool" where
  "itemOk n v v' = (freshAbove n v' \<or> (v' = v \<and> \<not> isObject v))"

section \<open>Specification-side notions for tree shaking\<close>

text \<open>
  A node is a resolved reference when the context holds a reference for it whose
  target is defined. A node contains a resolved reference when it is one, or when one
  of its properties or items contains one.
\<close>

definition resolvedRef :: "Context \<Rightarrow> val \<Rightarrow> bool" where
  "resolvedRef context v =
     (case getReference context v of None \<Rightarrow> False | Some r \<Rightarrow> target r \<noteq> None)"

inductive containsRef :: "heap \<Rightarrow> Context \<Rightarrow> val \<Rightarrow> bool" for h ctx where
  here: "resolvedRef ctx v \<Longrightarrow> containsRef h ctx v"
| below: "a < length h \<Longrightarrow> c \<in> set (objectValues (h ! a)) \<Longrightarrow> containsRef h ctx c \<Longrightarrow>
          containsRef h ctx (Ptr a)"

text \<open>
  The rewritten image of a node. \<open>mirrors h ctx refUri h' ctx' v v'\<close> says that
  \<open>v'\<close>, in the heap \<open>h'\<close> and the context \<open>ctx'\<close> after the call, is the copy of the
  node \<open>v\<close> of the input \<open>h\<close>, \<open>ctx\<close> in which every resolved reference node has
  become a reference node to \<open>refUri\<close>: a primitive is itself; a resolved reference
  node with the keyword \<open>key\<close> is a new object \<open>{ [key]: refUri }\<close> that the context
  after the call knows as a reference with that keyword and that URI; any other
  array or object is a new array or object whose items or property values are the
  images of the items or property values.
\<close>

inductive mirrors ::
  "heap \<Rightarrow> Context \<Rightarrow> string \<Rightarrow> heap \<Rightarrow> Context \<Rightarrow> val \<Rightarrow> val \<Rightarrow> bool"
  for h ctx refUri h' ctx' where
  leaf: "\<not> isObject v \<Longrightarrow> mirrors h ctx refUri h' ctx' v v"
| reference:
    "getReference ctx (Ptr a) = Some r \<Longrightarrow> target r \<noteq> None \<Longrightarrow>
     length h \<le> a' \<Longrightarrow> a' < length h' \<Longrightarrow> h' ! a' = Obj [(key r, Str refUri)] \<Longrightarrow>
     getReference ctx' (Ptr a') = Some r' \<Longrightarrow> key r' = key r \<Longrightarrow>
     Reference.uri r' = refUri \<Longrightarrow>
     mirrors h ctx refUri h' ctx' (Ptr a) (Ptr a')"
| array:
    "\<not> resolvedRef ctx (Ptr a) \<Longrightarrow> a < length h \<Longrightarrow> h ! a = Arr items \<Longrightarrow>
     list_all2 (mirrors h ctx refUri h' ctx') items items' \<Longrightarrow>
     length h \<le> a' \<Longrightarrow> a' < length h' \<Longrightarrow> h' ! a' = Arr items' \<Longrightarrow>
     mirrors h ctx refUri h' ctx' (Ptr a) (Ptr a')"
| object:
    "\<not> resolvedRef ctx (Ptr a) \<Longrightarrow> a < length h \<Longrightarrow> h ! a = Obj entries \<Longrightarrow>
     list_all2 (mirrors h ctx refUri h' ctx') (map snd entries) values' \<Longrightarrow>
     length h \<le> a' \<Longrightarrow> a' < length h' \<Longrightarrow>
     h' ! a' = assignEntries (zip (map fst entries) values') \<Longrightarrow>
     mirrors h ctx refUri h' ctx' (Ptr a) (Ptr a')"
| derived:
    "\<not> resolvedRef ctx (Ptr a) \<Longrightarrow> a < length h \<Longrightarrow> h ! a = Derived q entries \<Longrightarrow>
     list_all2 (mirrors h ctx refUri h' ctx') (map snd entries) values' \<Longrightarrow>
     length h \<le> a' \<Longrightarrow> a' < length h' \<Longrightarrow>
     h' ! a' = assignEntries (zip (map fst entries) values') \<Longrightarrow>
     mirrors h ctx refUri h' ctx' (Ptr a) (Ptr a')"

code_pred containsRef .

code_pred mirrors .

text \<open>
  The self-referential graphs. The objects and arrays of the input form a tree or a
  directed acyclic graph by containment, so that a cycle passes through a reference:
  \<open>rank\<close> decreases from a node to the objects and arrays among its property values
  and items, which are nodes of the input. The reference nodes of the context are
  nodes of the input. Every resolved reference points to the one node \<open>p\<close>, the
  person, which is no root, and the name that its URI gives is not the name of a
  property of \<open>Object.prototype\<close>. A root contains a resolved reference. There is no
  \<open>transform\<close>.
\<close>

definition selfReferential ::
  "heap \<Rightarrow> Context \<Rightarrow> ShakeOptions \<Rightarrow> (addr \<Rightarrow> nat) \<Rightarrow> addr \<Rightarrow> bool" where
  "selfReferential h context options rank p =
     (transform options = None \<and>
      (\<forall>a < length h. rank a < length h \<and>
         (\<forall>c \<in> set (objectValues (h ! a)).
            isObject c \<longrightarrow> (\<exists>b. c = Ptr b \<and> b < length h \<and> rank b < rank a))) \<and>
      (\<forall>a rid. references context a = Some rid \<longrightarrow> a < length h \<and> rid < nextRef context) \<and>
      (\<forall>a \<in> set (roots options). a < length h) \<and>
      p < length h \<and> p \<notin> set (roots options) \<and>
      (\<forall>a r. getReference context (Ptr a) = Some r \<and> target r \<noteq> None \<longrightarrow>
         target r = Some (Ptr p) \<and>
         uriName (Reference.uri r) \<noteq> ''__proto__'' \<and>
         uriName (Reference.uri r) \<notin> set objectPrototypeKeys) \<and>
      (\<exists>a \<in> set (roots options). containsRef h context (Ptr a)))"

text \<open>The graph of the test \<open>handles cyclic references\<close>: the person node has a
  property \<open>properties\<close>, whose \<open>friend\<close> is a reference resolved to the person node.\<close>

definition cyclicHeap :: heap where
  "cyclicHeap =
     [Obj [(''$defs'', Ptr 1)],
      Obj [(''person'', Ptr 2)],
      Obj [(''type'', Str ''object''), (''properties'', Ptr 3)],
      Obj [(''name'', Ptr 4), (''friend'', Ptr 5)],
      Obj [(''type'', Str ''string'')],
      Obj [(''$ref'', Str ''#/$defs/person'')]]"

definition cyclicContext :: Context where
  "cyclicContext = resolvedContext [(5, ''#/$defs/person'', Ptr 2)]"

definition cyclicOptions :: ShakeOptions where
  "cyclicOptions = \<lparr>roots = [0], defsUri = ''#/components/schemas'', transform = None\<rparr>"


text \<open>
  Invariants of the two phases on a self-referential graph. During the mark phase
  the heap and the context are those of the input, no definition has been written,
  the visited nodes are distinct nodes of the input, and either no name has been
  given and no visited node is a resolved reference, or the person has got the name
  of one of the references to it. \<open>closedFrom h old new\<close> says that the nodes visited
  since \<open>old\<close> have all their objects and arrays among the nodes visited.
\<close>

definition markInv :: "heap \<Rightarrow> Context \<Rightarrow> addr \<Rightarrow> Shake \<Rightarrow> bool" where
  "markInv h ctx p s =
     (sheap s = h \<and> sctx s = ctx \<and> defs s = None \<and> distinct (visited s) \<and>
      set (visited s) \<subseteq> Ptr ` {..< length h} \<and>
      (refs s = [] \<and> (\<forall>v \<in> set (visited s). \<not> resolvedRef ctx v) \<or>
       (\<exists>a r. getReference ctx (Ptr a) = Some r \<and> target r = Some (Ptr p) \<and>
              refs s = [(Ptr p, uriName (Reference.uri r))])))"

definition closedFrom :: "heap \<Rightarrow> val list \<Rightarrow> val list \<Rightarrow> bool" where
  "closedFrom h old new =
     (\<forall>a. Ptr a \<in> set new - set old \<longrightarrow>
          (\<forall>c \<in> set (objectValues (heapGet h a)). isObject c \<longrightarrow> c \<in> set new))"

text \<open>A node of the input, or a primitive; and the rank of a value.\<close>

definition inputValue :: "heap \<Rightarrow> val \<Rightarrow> bool" where
  "inputValue h v = (isObject v \<longrightarrow> (\<exists>a. v = Ptr a \<and> a < length h))"

definition rankOf :: "(addr \<Rightarrow> nat) \<Rightarrow> val \<Rightarrow> nat" where
  "rankOf rank v = (case v of Ptr a \<Rightarrow> rank a | _ \<Rightarrow> 0)"

text \<open>
  During the rewrite phase the heap extends the input, the context knows the
  references of the input as before and new ones for new nodes only, and the names
  are those of the mark phase. \<open>ctxLater\<close> and \<open>stepLater\<close> relate an earlier state
  to a later one: what was allocated and registered stays as it is.
\<close>

definition ctxLater :: "Context \<Rightarrow> Context \<Rightarrow> bool" where
  "ctxLater c c' =
     (nextRef c \<le> nextRef c' \<and>
      (\<forall>a rid. references c a = Some rid \<longrightarrow> references c' a = Some rid) \<and>
      (\<forall>i < nextRef c. refStore c' i = refStore c i))"

definition stepLater :: "Shake \<Rightarrow> Shake \<Rightarrow> bool" where
  "stepLater s s' = (heapExtends (sheap s) (sheap s') \<and> ctxLater (sctx s) (sctx s'))"

definition rewriteInv :: "heap \<Rightarrow> Context \<Rightarrow> addr \<Rightarrow> string \<Rightarrow> Shake \<Rightarrow> bool" where
  "rewriteInv h ctx p nm s =
     (heapExtends h (sheap s) \<and> ctxLater ctx (sctx s) \<and>
      (\<forall>a < length h. references (sctx s) a = references ctx a) \<and>
      (\<forall>a rid. references (sctx s) a = Some rid \<longrightarrow>
         a < length (sheap s) \<and> rid < nextRef (sctx s)) \<and>
      refs s = [(Ptr p, nm)])"

text \<open>The definition of the person has been written: \<open>defs\<close> holds the image of the
  person under its name and nothing else.\<close>

definition defined :: "heap \<Rightarrow> Context \<Rightarrow> addr \<Rightarrow> string \<Rightarrow> string \<Rightarrow> Shake \<Rightarrow> bool" where
  "defined h ctx p nm refUri s =
     (\<exists>d. defs s = Some [(nm, Some d)] \<and> mirrors h ctx refUri (sheap s) (sctx s) (Ptr p) d)"


section \<open>Properties of JSON Pointer token escaping\<close>

lemma plain_simps [simp]: "plain []" "plain (c # s) = (c \<noteq> CHR ''~'' \<and> c \<noteq> CHR ''/'' \<and> plain s)"
  "plain (s @ t) = (plain s \<and> plain t)"
  by (auto simp: plain_def)

lemma escChar_simps [simp]: "escChar (CHR ''~'') = ''~0''" "escChar (CHR ''/'') = ''~1''"
  "c \<noteq> CHR ''~'' \<Longrightarrow> c \<noteq> CHR ''/'' \<Longrightarrow> escChar c = [c]"
  by (simp_all add: escChar_def)

lemma escape_plain: "plain s \<Longrightarrow> concat (map escChar s) = s"
  by (induction s) auto

lemma slice_Suc: "st \<le> off \<Longrightarrow> off < length s \<Longrightarrow> slice s st (Suc off) = slice s st off @ [s ! off]"
  by (simp add: slice_def Suc_diff_le take_Suc_conv_app_nth)

lemma slice_same [simp]: "slice s a a = []"
  by (simp add: slice_def)

lemma slice_drop: "st \<le> off \<Longrightarrow> slice s st off @ drop off s = drop st s"
  unfolding slice_def
  by (metis append_take_drop_id drop_drop le_add_diff_inverse2)

lemma drop_split: "st \<le> off \<Longrightarrow> off < length s \<Longrightarrow> drop st s = slice s st off @ (s ! off) # drop (Suc off) s"
  using slice_drop[of st off s] by (simp add: Cons_nth_drop_Suc)

lemma escapeLoop_spec:
  "st \<le> off \<Longrightarrow> off \<le> length input \<Longrightarrow> plain (slice input st off) \<Longrightarrow>
   escapeLoop input out off st = (out', st') \<Longrightarrow>
   st \<le> st' \<and> st' \<le> length input \<and> out' @ drop st' input = out @ concat (map escChar (drop st input))
    \<and> (st' = st \<longrightarrow> out' = out)"
proof (induction input out off st rule: escapeLoop.induct)
  case (1 input out off st)
  show ?case
  proof (cases "off < length input")
    case False
    with 1(5) have off: "off = length input" by simp
    from False 1(7) have "out' = out" "st' = st"
      by (simp_all add: escapeLoop.simps[of input out off st])
    moreover from 1(6) off have "plain (drop st input)" by (simp add: slice_def)
    ultimately show ?thesis using 1(4,5) by (simp add: escape_plain)
  next
    case True
    note lt = True
    note dr = drop_split[OF 1(4) lt]
    show ?thesis
    proof (cases "input ! off = CHR ''~''")
      case True
      with lt 1(7) have e: "escapeLoop input (out @ slice input st off @ ''~0'') (off + 1) (off + 1) = (out', st')"
        by (simp add: escapeLoop.simps[of input out off st])
      from 1(1)[OF lt refl True _ _ _ e] lt
      have "off + 1 \<le> st' \<and> st' \<le> length input \<and> out' @ drop st' input =
              (out @ slice input st off @ ''~0'') @ concat (map escChar (drop (off+1) input))"
        by simp
      then show ?thesis using dr True 1(4,6) by (simp add: escape_plain)
    next
      case False
      note nt = False
      show ?thesis
      proof (cases "input ! off = CHR ''/''")
        case True
        with lt nt 1(7) have e: "escapeLoop input (out @ slice input st off @ ''~1'') (off + 1) (off + 1) = (out', st')"
          by (simp add: escapeLoop.simps[of input out off st])
        from 1(2)[OF lt refl nt True _ _ _ e] lt
        have "off + 1 \<le> st' \<and> st' \<le> length input \<and> out' @ drop st' input =
              (out @ slice input st off @ ''~1'') @ concat (map escChar (drop (off+1) input))"
          by simp
        then show ?thesis using dr True 1(4,6) by (simp add: escape_plain)
      next
        case False
        with lt nt 1(7) have e: "escapeLoop input out (off + 1) st = (out', st')"
          by (simp add: escapeLoop.simps[of input out off st])
        have "plain (slice input st (off + 1))"
          using slice_Suc[OF 1(4) lt] 1(6) nt False by simp
        from 1(3)[OF lt refl nt False _ _ this e] lt 1(4)
        show ?thesis by simp
      qed
    qed
  qed
qed

lemma escapePointer_eq: "escapePointer s = concat (map escChar s)"
proof -
  obtain out' st' where e: "escapeLoop s [] 0 0 = (out', st')" by force
  from escapeLoop_spec[OF _ _ _ e] have
    "st' \<le> length s" "out' @ drop st' s = concat (map escChar s)" "st' = 0 \<longrightarrow> out' = []"
    by simp_all
  then show ?thesis
    by (auto simp: escapePointer_def e)
qed


lemma unescapeLoop_escaped:
  "input = pre @ concat (map escChar s) \<Longrightarrow> st \<le> off \<Longrightarrow> off = length pre \<Longrightarrow>
   plain (slice input st off) \<Longrightarrow>
   \<exists>out' st'. unescapeLoop input out off st = Inr (out', st') \<and> st \<le> st' \<and> st' \<le> length input \<and>
      out' @ drop st' input = out @ slice input st off @ s \<and> (st' = st \<longrightarrow> out' = out)"
proof (induction s arbitrary: pre out off st)
  case Nil
  have "unescapeLoop input out off st = Inr (out, st)"
    using Nil by (subst unescapeLoop.simps) simp
  with Nil show ?case
    by (simp add: slice_def)
next
  case (Cons c s)
  have lt: "off < length input" using Cons.prems by (auto simp: escChar_def)
  show ?case
  proof (cases "c = CHR ''~''")
    case True
    have inp: "input = (pre @ ''~0'') @ concat (map escChar s)"
      using Cons.prems True by simp
    have at: "input ! off = CHR ''~''" "Suc off < length input" "input ! Suc off = CHR ''0''"
      using Cons.prems(3) by (simp_all add: inp nth_append)
    have step: "unescapeLoop input out off st =
        unescapeLoop input (out @ slice input st off @ ''~'') (off + 2) (off + 2)"
      using lt at by (simp add: unescapeLoop.simps[of input out off st])
    from Cons.IH[OF inp, of "off + 2" "off + 2" "out @ slice input st off @ ''~''"] Cons.prems(3)
    obtain out' st' where r: "unescapeLoop input (out @ slice input st off @ ''~'') (off + 2) (off + 2) = Inr (out', st')"
      "off + 2 \<le> st'" "st' \<le> length input"
      "out' @ drop st' input = (out @ slice input st off @ ''~'') @ s"
      by auto
    with step True Cons.prems(2) show ?thesis by auto
  next
    case False
    note nt = False
    show ?thesis
    proof (cases "c = CHR ''/''")
      case True
      have inp: "input = (pre @ ''~1'') @ concat (map escChar s)"
        using Cons.prems True by simp
      have at: "input ! off = CHR ''~''" "Suc off < length input" "input ! Suc off = CHR ''1''"
        using Cons.prems(3) by (simp_all add: inp nth_append)
      have step: "unescapeLoop input out off st =
          unescapeLoop input (out @ slice input st off @ ''/'') (off + 2) (off + 2)"
        using lt at by (simp add: unescapeLoop.simps[of input out off st])
      from Cons.IH[OF inp, of "off + 2" "off + 2" "out @ slice input st off @ ''/''"] Cons.prems(3)
      obtain out' st' where r: "unescapeLoop input (out @ slice input st off @ ''/'') (off + 2) (off + 2) = Inr (out', st')"
        "off + 2 \<le> st'" "st' \<le> length input"
        "out' @ drop st' input = (out @ slice input st off @ ''/'') @ s"
        by auto
      with step True Cons.prems(2) show ?thesis by auto
    next
      case False
      have inp: "input = (pre @ [c]) @ concat (map escChar s)"
        using Cons.prems nt False by simp
      have at: "input ! off = c"
        using Cons.prems(3) by (simp add: inp nth_append)
      have step: "unescapeLoop input out off st = unescapeLoop input out (off + 1) st"
        using lt at nt by (simp add: unescapeLoop.simps[of input out off st])
      have sl: "slice input st (off + 1) = slice input st off @ [c]"
        using slice_Suc[OF Cons.prems(2) lt] at by simp
      have pl: "plain (slice input st (off + 1))"
        using sl Cons.prems(4) nt False by simp
      from Cons.IH[OF inp _ _ pl, of out] Cons.prems(2,3) sl step
      show ?thesis by auto
    qed
  qed
qed

lemma unescape_escape: "unescapePointer (escapePointer s) = Inr s"
proof -
  let ?e = "escapePointer s"
  have "?e = [] @ concat (map escChar s)" by (simp add: escapePointer_eq)
  from unescapeLoop_escaped[OF this, of 0 0 "[]"]
  obtain out' st' where r: "unescapeLoop ?e [] 0 0 = Inr (out', st')" "st' \<le> length ?e"
    "out' @ drop st' ?e = s" "st' = 0 \<longrightarrow> out' = []"
    by auto
  then show ?thesis
    by (auto simp: unescapePointer_def)
qed

lemma no_slash_escaped: "CHR ''/'' \<notin> set (concat (map escChar s))"
  by (induction s) (auto simp: escChar_def)

lemma tilde_followed:
  "i < length (concat (map escChar s)) \<Longrightarrow> concat (map escChar s) ! i = CHR ''~'' \<Longrightarrow>
   Suc i < length (concat (map escChar s)) \<and> concat (map escChar s) ! Suc i \<in> {CHR ''0'', CHR ''1''}"
proof (induction s arbitrary: i)
  case Nil
  then show ?case by simp
next
  case (Cons c s)
  let ?r = "concat (map escChar s)"
  consider (t) "c = CHR ''~''" | (s) "c = CHR ''/''" | (p) "c \<noteq> CHR ''~''" "c \<noteq> CHR ''/''" by blast
  then show ?case
  proof cases
    case t
    show ?thesis
    proof (cases i)
      case 0 then show ?thesis using t by simp
    next
      case (Suc j)
      show ?thesis
      proof (cases j)
        case 0 then show ?thesis using t Suc Cons.prems by simp
      next
        case (Suc k)
        with \<open>i = Suc j\<close> t Cons.prems Cons.IH[of k] show ?thesis by simp
      qed
    qed
  next
    case s
    show ?thesis
    proof (cases i)
      case 0 then show ?thesis using s by simp
    next
      case (Suc j)
      show ?thesis
      proof (cases j)
        case 0 then show ?thesis using s Suc Cons.prems by simp
      next
        case (Suc k)
        with \<open>i = Suc j\<close> s Cons.prems Cons.IH[of k] show ?thesis by simp
      qed
    qed
  next
    case p
    show ?thesis
    proof (cases i)
      case 0 then show ?thesis using p Cons.prems by simp
    next
      case (Suc j)
      with p Cons.prems Cons.IH[of j] show ?thesis by simp
    qed
  qed
qed

text \<open>
  Claim C10. JSON Pointer token escaping round-trips: for every string \<open>s\<close>,
  \<open>unescapePointer (escapePointer s)\<close> returns \<open>s\<close> (it does not throw), and the
  escaped token contains no \<open>/\<close>, and every \<open>~\<close> in it is immediately followed by
  \<open>0\<close> or \<open>1\<close>.
\<close>

theorem escapePointer_roundtrip:
  "unescapePointer (escapePointer s) = Inr s \<and>
   CHR ''/'' \<notin> set (escapePointer s) \<and>
   (\<forall>i < length (escapePointer s). escapePointer s ! i = CHR ''~'' \<longrightarrow>
      Suc i < length (escapePointer s) \<and>
      escapePointer s ! Suc i \<in> {CHR ''0'', CHR ''1''})"
  using unescape_escape [of s] no_slash_escaped [of s] tilde_followed [of _ s]
  by (simp only: escapePointer_eq) blast

theorem escapePointer_roundtrip_witness:
  "escapePointer ''a/b~c'' = ''a~1b~0c'' \<and>
   unescapePointer ''a~1b~0c'' = Inr ''a/b~c'' \<and>
   (1::nat) < length ''a~1b~0c'' \<and> ''a~1b~0c'' ! 1 = CHR ''~'' \<and>
   ''a~1b~0c'' ! Suc 1 \<in> {CHR ''0'', CHR ''1''}"
proof -
  have e: "escapePointer ''a/b~c'' = ''a~1b~0c''"
    by (simp add: escapePointer_def escapeLoop.simps slice_def Let_def)
  from escapePointer_roundtrip [of "''a/b~c''"] show ?thesis
    unfolding e by simp
qed

section \<open>Pointer resolution follows the tokens\<close>

lemma formatPointer_eq: "formatPointer tokens = concat (map (\<lambda>t. CHR ''/'' # escapePointer t) tokens)"
proof -
  have "foldl (\<lambda>pointer token. pointer @ ''/'' @ escapePointer token) acc tokens
        = acc @ concat (map (\<lambda>t. CHR ''/'' # escapePointer t) tokens)" for acc
    by (induction tokens arbitrary: acc) auto
  then show ?thesis by (simp add: formatPointer_def)
qed

lemma formatPointer_simps [simp]:
  "formatPointer [] = []"
  "formatPointer (t # ts) = CHR ''/'' # escapePointer t @ formatPointer ts"
  "formatPointer (ts @ us) = formatPointer ts @ formatPointer us"
  by (simp_all add: formatPointer_eq)

lemma no_slash_escapePointer: "CHR ''/'' \<notin> set (escapePointer t)"
  unfolding escapePointer_eq by (rule no_slash_escaped)

lemma formatPointer_head: "formatPointer ts = [] \<or> hd (formatPointer ts) = CHR ''/''"
  by (cases ts) simp_all

lemma tokenEnd_format:
  "tokenEnd (pre @ CHR ''/'' # escapePointer t @ formatPointer ts) (length pre)
     = length pre + 1 + length (escapePointer t)"
proof (cases ts)
  case Nil
  then show ?thesis
    by (simp add: tokenEnd_def indexOf_def no_slash_escapePointer)
next
  case (Cons u us)
  have "takeWhile (\<lambda>x. x \<noteq> CHR ''/'') (escapePointer t @ CHR ''/'' # escapePointer u @ formatPointer us)
        = escapePointer t"
    using no_slash_escapePointer[of t] by (subst takeWhile_append2) auto
  then show ?thesis using Cons
    by (simp add: tokenEnd_def indexOf_def)
qed

lemma slice_mid: "slice (pre @ c # mid @ post) (length pre + 1) (length pre + 1 + length mid) = mid"
  by (simp add: slice_def)

lemma slice_prefix: "slice (pre @ post) 0 (length pre) = pre"
  by (simp add: slice_def)

lemma pointerLoop_walk:
  "pointer = formatPointer (done @ ts) \<Longrightarrow>
   pointerLoop h pointer n (length (formatPointer done)) =
     (case walkTokens h n done ts of Inr v \<Rightarrow> Inr v | Inl absent \<Rightarrow> Inl (absentError pointer absent))"
proof (induction ts arbitrary: "done" n)
  case Nil
  then show ?case by (subst pointerLoop.simps) simp
next
  case (Cons t ts)
  let ?pre = "formatPointer done"
  have p: "pointer = ?pre @ CHR ''/'' # escapePointer t @ formatPointer ts"
    using Cons.prems by simp
  have lt: "length ?pre < length pointer" by (simp add: p)
  have te: "tokenEnd pointer (length ?pre) = length ?pre + 1 + length (escapePointer t)"
    unfolding p by (rule tokenEnd_format)
  have sl: "slice pointer (length ?pre + 1) (length ?pre + 1 + length (escapePointer t)) = escapePointer t"
    unfolding p by (rule slice_mid)
  have pre': "slice pointer 0 (length ?pre + 1 + length (escapePointer t)) = formatPointer (done @ [t])"
    using slice_prefix[of "formatPointer (done @ [t])" "formatPointer ts"] by (simp add: p)
  have len': "length ?pre + 1 + length (escapePointer t) = length (formatPointer (done @ [t]))"
    by simp
  have p': "pointer = formatPointer ((done @ [t]) @ ts)" using Cons.prems by simp
  show ?case
  proof (cases "getChild h n t")
    case None
    then show ?thesis
      using lt te sl pre'
      by (subst pointerLoop.simps) (simp add: Let_def unescape_escape absentError_def del: formatPointer_simps)
  next
    case (Some nxt)
    have "pointerLoop h pointer n (length ?pre) = pointerLoop h pointer nxt (length (formatPointer (done @ [t])))"
      using lt te sl Some len'
      by (subst pointerLoop.simps) (simp add: Let_def unescape_escape del: formatPointer_simps)
    also have "\<dots> = (case walkTokens h nxt (done @ [t]) ts of Inr v \<Rightarrow> Inr v
                      | Inl absent \<Rightarrow> Inl (absentError pointer absent))"
      by (rule Cons.IH[OF p'])
    finally show ?thesis using Some by simp
  qed
qed

lemma resolvePointer_walk:
  "resolvePointer h (formatPointer tokens) n =
     (case walkTokens h n [] tokens of Inr v \<Rightarrow> Inr v
      | Inl absent \<Rightarrow> Inl (absentError (formatPointer tokens) absent))"
proof -
  have "pointerLoop h (formatPointer tokens) n 0 =
     (case walkTokens h n [] tokens of Inr v \<Rightarrow> Inr v
      | Inl absent \<Rightarrow> Inl (absentError (formatPointer tokens) absent))"
    using pointerLoop_walk[of "formatPointer tokens" "[]" tokens h n] by simp
  moreover have "formatPointer tokens = [] \<or> startsWith (formatPointer tokens) ''/''"
    by (cases tokens) (simp_all add: startsWith_def)
  ultimately show ?thesis by (auto simp: resolvePointer_def)
qed

text \<open>Evaluating \<open>getChild\<close> on a given heap.\<close>

lemma lookupChain_pos:
  "0 < n \<Longrightarrow>
   lookupChain n h holder receiver k =
     (case ownProperty h holder k of
        Some v \<Rightarrow> Some v
      | None \<Rightarrow>
          if holder = Proto ObjectPrototype then
            (if k = ''__proto__'' then Some (prototypeOf h receiver) else None)
          else if prototypeOf h holder = Null then None
          else lookupChain (n - 1) h (prototypeOf h holder) receiver k)"
  by (cases n) (simp_all split: option.splits)

lemmas getChild_eval =
  getChild_def isObject_def lookupChain_pos ownProperty_def prototypeOf_def heapGet_def
  objectPrototypeKeys_def



section \<open>Resolution of a URI reference\<close>

lemma splitOn_nonempty [simp]: "splitOn c s \<noteq> []"
  by (induction s) (auto split: list.splits)

lemma hd_splitOn: "hd (splitOn c s) = takeWhile (\<lambda>x. x \<noteq> c) s"
  by (induction s) (auto split: list.splits)

lemma tl_splitOn: "tl (splitOn c s) = (if c \<in> set s then splitOn c (tl (dropWhile (\<lambda>x. x \<noteq> c) s)) else [])"
  by (induction s) (auto split: list.splits)

lemma splitOn_cons: "splitOn c s = takeWhile (\<lambda>x. x \<noteq> c) s #
    (if c \<in> set s then splitOn c (tl (dropWhile (\<lambda>x. x \<noteq> c) s)) else [])"
  using hd_splitOn[of c s] tl_splitOn[of c s]
  by (cases "splitOn c s") simp_all

lemma takeWhile_absent: "c \<notin> set s \<Longrightarrow> takeWhile (\<lambda>x. x \<noteq> c) s = s"
  by (induction s) auto

lemma count_list_0_iff: "count_list s c = 0 \<longleftrightarrow> c \<notin> set s"
  by (induction s) auto

lemma count_after_first:
  "c \<in> set s \<Longrightarrow> count_list s c = Suc (count_list (tl (dropWhile (\<lambda>x. x \<noteq> c) s)) c)"
  by (induction s) auto

lemma take2_splitOn:
  "take 2 (splitOn c s) =
     takeWhile (\<lambda>x. x \<noteq> c) s #
     (if c \<in> set s then [takeWhile (\<lambda>x. x \<noteq> c) (drop 1 (dropWhile (\<lambda>x. x \<noteq> c) s))] else [])"
proof (cases "c \<in> set s")
  case False
  then show ?thesis by (subst splitOn_cons) simp
next
  case True
  let ?r = "tl (dropWhile (\<lambda>x. x \<noteq> c) s)"
  have "take 1 (splitOn c ?r) = [takeWhile (\<lambda>x. x \<noteq> c) ?r]"
    by (subst splitOn_cons) simp
  with True show ?thesis
    by (subst splitOn_cons) (simp add: numeral_2_eq_2 drop_Suc)
qed

lemma dropWhile_absent: "c \<notin> set s \<Longrightarrow> dropWhile (\<lambda>x. x \<noteq> c) s = []"
  by (induction s) auto

lemma dropWhile_first: "c \<in> set s \<Longrightarrow> dropWhile (\<lambda>x. x \<noteq> c) s = c # tl (dropWhile (\<lambda>x. x \<noteq> c) s)"
  by (induction s) auto

lemma split_at_first:
  "c \<in> set s \<Longrightarrow>
   \<exists>rest. s = takeWhile (\<lambda>x. x \<noteq> c) s @ c #
              takeWhile (\<lambda>x. x \<noteq> c) (drop 1 (dropWhile (\<lambda>x. x \<noteq> c) s)) @ rest \<and>
          (rest = [] \<or> hd rest = c) \<and> (count_list s c \<le> 1 \<longrightarrow> rest = [])"
proof -
  assume m: "c \<in> set s"
  let ?r = "tl (dropWhile (\<lambda>x. x \<noteq> c) s)"
  let ?rest = "dropWhile (\<lambda>x. x \<noteq> c) ?r"
  have d: "drop 1 (dropWhile (\<lambda>x. x \<noteq> c) s) = ?r" by (simp add: drop_Suc)
  have "s = takeWhile (\<lambda>x. x \<noteq> c) s @ dropWhile (\<lambda>x. x \<noteq> c) s" by simp
  also have "dropWhile (\<lambda>x. x \<noteq> c) s = c # ?r" using m by (rule dropWhile_first)
  also have "?r = takeWhile (\<lambda>x. x \<noteq> c) ?r @ ?rest" by simp
  finally have 1: "s = takeWhile (\<lambda>x. x \<noteq> c) s @ c # takeWhile (\<lambda>x. x \<noteq> c) ?r @ ?rest" .
  have 2: "?rest = [] \<or> hd ?rest = c"
    using hd_dropWhile [of "\<lambda>x. x \<noteq> c" ?r] by blast
  have 3: "?rest = []" if "count_list s c \<le> 1"
  proof -
    from that count_after_first [OF m] have "count_list ?r c = 0" by simp
    then have "c \<notin> set ?r" by (simp add: count_list_0_iff)
    then show ?thesis by (rule dropWhile_absent)
  qed
  from 1 2 3 show ?thesis unfolding d by blast
qed

text \<open>
  Claim C4. A URI string passed to \<open>resolveResourceUri\<close> is split at its first \<open>#\<close>
  into the canonical part before it and the fragment part after it (up to a second
  \<open>#\<close>, which a URI reference does not have). A non-empty canonical part is resolved
  by \<open>resolveResource\<close>, and an unknown one is a resolution error; with an empty
  canonical part the supplied base resource is used, and its absence is a resolution
  error. The fragment part is then resolved against the resource so chosen, an empty
  or absent fragment yielding the root node of the resource.
\<close>

theorem resolveResourceUri_parts:
  "CHR ''#'' \<notin> set (canonicalPart uriRef) \<and>
   (CHR ''#'' \<notin> set uriRef \<longrightarrow> canonicalPart uriRef = uriRef \<and> fragmentPart uriRef = []) \<and>
   (CHR ''#'' \<in> set uriRef \<longrightarrow>
      (\<exists>rest. uriRef = canonicalPart uriRef @ CHR ''#'' # fragmentPart uriRef @ rest \<and>
              (rest = [] \<or> hd rest = CHR ''#'') \<and>
              (count_list uriRef (CHR ''#'') \<le> 1 \<longrightarrow> rest = []))) \<and>
   resolveResourceUri context h resource uriRef =
     (if canonicalPart uriRef \<noteq> [] then
        (case resolveResource context (canonicalPart uriRef) of
           (Inl e, context1) \<Rightarrow> (Inl e, context1)
         | (Inr None, context1) \<Rightarrow>
             (Inl (ResolutionError (''Unknown resource '' @ JSON_stringify (canonicalPart uriRef))
                    (Some (currentLocation context1)) []), context1)
         | (Inr (Some r), context1) \<Rightarrow>
             (if fragmentPart uriRef = [] then Inr (Ptr (Resource.node r))
              else resolveResourceFragment context1 h r (fragmentPart uriRef), context1))
      else
        (case resource of
           None \<Rightarrow>
             (Inl (ResolutionError
                    (''Cannot resolve relative URI reference '' @ JSON_stringify uriRef @
                     '' because the stack has no base node'')
                    (Some (currentLocation context)) []), context)
         | Some r \<Rightarrow>
             (if fragmentPart uriRef = [] then Inr (Ptr (Resource.node r))
              else resolveResourceFragment context h r (fragmentPart uriRef), context)))"
proof -
  have a: "CHR ''#'' \<notin> set (canonicalPart uriRef)"
    unfolding canonicalPart_def by (auto dest: set_takeWhileD)
  have b: "canonicalPart uriRef = uriRef \<and> fragmentPart uriRef = []" if "CHR ''#'' \<notin> set uriRef"
    using that by (simp add: canonicalPart_def fragmentPart_def takeWhile_absent dropWhile_absent)
  have c: "\<exists>rest. uriRef = canonicalPart uriRef @ CHR ''#'' # fragmentPart uriRef @ rest \<and>
              (rest = [] \<or> hd rest = CHR ''#'') \<and>
              (count_list uriRef (CHR ''#'') \<le> 1 \<longrightarrow> rest = [])" if "CHR ''#'' \<in> set uriRef"
    unfolding canonicalPart_def fragmentPart_def using that by (rule split_at_first)
  have d: "resolveResourceUri context h resource uriRef = (if canonicalPart uriRef \<noteq> [] then
        (case resolveResource context (canonicalPart uriRef) of
           (Inl e, context1) \<Rightarrow> (Inl e, context1)
         | (Inr None, context1) \<Rightarrow>
             (Inl (ResolutionError (''Unknown resource '' @ JSON_stringify (canonicalPart uriRef))
                    (Some (currentLocation context1)) []), context1)
         | (Inr (Some r), context1) \<Rightarrow>
             (if fragmentPart uriRef = [] then Inr (Ptr (Resource.node r))
              else resolveResourceFragment context1 h r (fragmentPart uriRef), context1))
      else
        (case resource of
           None \<Rightarrow>
             (Inl (ResolutionError
                    (''Cannot resolve relative URI reference '' @ JSON_stringify uriRef @
                     '' because the stack has no base node'')
                    (Some (currentLocation context)) []), context)
         | Some r \<Rightarrow>
             (if fragmentPart uriRef = [] then Inr (Ptr (Resource.node r))
              else resolveResourceFragment context h r (fragmentPart uriRef), context)))"
  proof (cases "CHR ''#'' \<in> set uriRef")
    case True
    then show ?thesis
      unfolding resolveResourceUri_def take2_splitOn
      by (simp add: canonicalPart_def fragmentPart_def
               split: prod.splits sum.splits option.splits)
  next
    case False
    then show ?thesis
      unfolding resolveResourceUri_def take2_splitOn
      by (simp add: canonicalPart_def b
               split: prod.splits sum.splits option.splits)
  qed
  from a b c d show ?thesis by blast
qed

theorem resolveResourceUri_parts_witness:
  "(let h = [Obj [(''a'', Ptr (Suc 0))], Obj [(''b'', Num 1)]];
        context = setResource (createContext None) (createResource (Some ''s.json'') 0)
    in CHR ''#'' \<in> set ''s.json#/a/b'' \<and> count_list ''s.json#/a/b'' (CHR ''#'') \<le> 1 \<and>
       canonicalPart ''s.json#/a/b'' = ''s.json'' \<and> fragmentPart ''s.json#/a/b'' = ''/a/b'' \<and>
       fst (resolveResourceUri context h None ''s.json#/a/b'') = Inr (Num 1))"
proof -
  let ?h = "[Obj [(''a'', Ptr (Suc 0))], Obj [(''b'', Num 1)]]"
  let ?r = "createResource (Some ''s.json'') 0"
  let ?c = "setResource (createContext None) ?r"
  have cnt: "count_list ''s.json#/a/b'' (CHR ''#'') \<le> 1" by simp
  have cp: "canonicalPart ''s.json#/a/b'' = ''s.json''" by (simp add: canonicalPart_def)
  have fp: "fragmentPart ''s.json#/a/b'' = ''/a/b''" by (simp add: fragmentPart_def)
  have rr: "resolveResource ?c ''s.json'' = (Inr (Some ?r), ?c)"
    by (simp add: resolveResource_def setResource_def createResource_def createContext_def
                  endsWith_def Let_def)
  have e: "escapePointer ''a'' = ''a''" "escapePointer ''b'' = ''b''"
    by (simp_all add: escapePointer_def escapeLoop.simps Let_def)
  have f: "formatPointer [''a'', ''b''] = ''/a/b''" by (simp add: e)
  have w: "walkTokens ?h (Ptr 0) [] [''a'', ''b''] = Inr (Num 1)"
    by (simp add: getChild_eval)
  have "resolvePointer ?h ''/a/b'' (Ptr 0) = Inr (Num 1)"
    using resolvePointer_walk [of ?h "[''a'', ''b'']" "Ptr 0"] unfolding f w by simp
  then have frag: "resolveResourceFragment ?c ?h ?r ''/a/b'' = Inr (Num 1)"
    by (simp add: resolveResourceFragment_def startsWith_def createResource_def)
  have "resolveResourceUri ?c ?h None ''s.json#/a/b'' = (Inr (Num 1), ?c)"
    using resolveResourceUri_parts [of "''s.json#/a/b''" ?c ?h None]
    unfolding cp fp rr by (simp add: frag)
  then have "fst (resolveResourceUri ?c ?h None ''s.json#/a/b'') = Inr (Num 1)"
    by simp
  with cnt cp fp show ?thesis by (simp add: Let_def)
qed

section \<open>Registration of references\<close>

text \<open>
  Claim C9. \<open>registerReference\<close> is idempotent: after a registration of a node, a
  second registration of the same node, whatever its key and URI arguments, returns
  the same reference object and leaves the context (and so the unresolved map and
  its size) as it was. The reference object of a node not registered before is the
  one created from the arguments of the first call.
\<close>

theorem registerReference_idempotent:
  "(case registerReference ctx n k u of
      (reference, ctx1) \<Rightarrow>
        registerReference ctx1 n k' u' = (reference, ctx1) \<and>
        references ctx1 n = Some reference \<and>
        (references ctx n = None \<longrightarrow> refStore ctx1 reference = createReference k u))"
  by (simp add: registerReference_def Let_def split: option.splits)

theorem registerReference_idempotent_witness:
  "registerReference (snd (registerReference (createContext None) 0 ''$ref'' ''m1''))
       0 ''other'' ''m2'' =
     (0, snd (registerReference (createContext None) 0 ''$ref'' ''m1'')) \<and>
   refStore (snd (registerReference (createContext None) 0 ''$ref'' ''m1'')) 0 =
     createReference ''$ref'' ''m1'' \<and>
   map_option length (unresolved (snd (registerReference (createContext None) 0 ''$ref'' ''m1''))) =
     Some 1"
proof -
  have r: "fst (registerReference (createContext None) 0 ''$ref'' ''m1'') = 0"
    "references (createContext None) 0 = None"
    "map_option length (unresolved (snd (registerReference (createContext None) 0 ''$ref'' ''m1''))) =
     Some 1"
    by (simp_all add: registerReference_def createContext_def Let_def)
  from registerReference_idempotent [where ctx = "createContext None" and n = 0
         and k = "''$ref''" and u = "''m1''" and k' = "''other''" and u' = "''m2''"] r
  show ?thesis
    by (simp add: case_prod_unfold prod_eq_iff)
qed

section \<open>Batch resolution\<close>

lemma drainLoop_step:
  "drainLoop h resource (entry # rest) ctx cause =
     (case resolveEntry h resource entry ctx of
        (Inr v, c) \<Rightarrow> drainLoop h resource rest c cause
      | (Inl e, c) \<Rightarrow> if \<not> isResolutionError e then (Inl e, c)
                      else drainLoop h resource rest c (cause @ [e]))"
  by (cases entry) (simp add: resolveEntry_def Let_def split: prod.splits sum.splits)

lemma drainLoop_no_fatal:
  "\<forall>oc \<in> set (resolveEach h resource un ctx). \<not> isFatal oc \<Longrightarrow>
   drainLoop h resource un ctx cause =
     (Inr (cause @ failuresOf (resolveEach h resource un ctx)),
      finalContext ctx (resolveEach h resource un ctx))"
proof (induction un arbitrary: ctx cause)
  case Nil
  then show ?case by (simp add: finalContext_def)
next
  case (Cons entry rest)
  obtain r c where rc: "resolveEntry h resource entry ctx = (r, c)" by force
  from Cons.prems rc have nf: "\<not> isFatal (r, c)"
    and rest: "\<forall>oc \<in> set (resolveEach h resource rest c). \<not> isFatal oc"
    by simp_all
  have fin: "finalContext ctx (resolveEach h resource (entry # rest) ctx)
           = finalContext c (resolveEach h resource rest c)"
    by (simp add: finalContext_def rc)
  show ?case
  proof (cases r)
    case (Inl e)
    with nf have "isResolutionError e" by (simp add: isFatal_def)
    with Inl rc Cons.IH[OF rest, of "cause @ [e]"] fin show ?thesis
      by (simp add: drainLoop_step del: drainLoop.simps resolveEach.simps)
         (simp add: rc)
  next
    case (Inr v)
    with rc Cons.IH[OF rest, of cause] fin show ?thesis
      by (simp add: drainLoop_step del: drainLoop.simps resolveEach.simps)
         (simp add: rc)
  qed
qed

lemma drainLoop_fatal:
  "k < length (resolveEach h resource un ctx) \<Longrightarrow>
   fst (resolveEach h resource un ctx ! k) = Inl e \<Longrightarrow> \<not> isResolutionError e \<Longrightarrow>
   \<forall>j < k. \<not> isFatal (resolveEach h resource un ctx ! j) \<Longrightarrow>
   drainLoop h resource un ctx cause = (Inl e, snd (resolveEach h resource un ctx ! k))"
proof (induction un arbitrary: ctx cause k)
  case Nil
  then show ?case by simp
next
  case (Cons entry rest)
  obtain r c where rc: "resolveEntry h resource entry ctx = (r, c)" by force
  show ?case
  proof (cases k)
    case 0
    with Cons.prems rc show ?thesis
      by (simp add: drainLoop_step del: drainLoop.simps)
  next
    case (Suc k')
    from Cons.prems(4) Suc have "\<not> isFatal (resolveEach h resource (entry # rest) ctx ! 0)"
      by blast
    then have nf: "\<not> isFatal (r, c)" by (simp add: rc)
    have a: "k' < length (resolveEach h resource rest c)"
      "fst (resolveEach h resource rest c ! k') = Inl e"
      using Cons.prems(1,2) Suc by (simp_all add: rc)
    have b: "\<forall>j < k'. \<not> isFatal (resolveEach h resource rest c ! j)"
    proof (intro allI impI)
      fix j assume "j < k'"
      then have "Suc j < k" using Suc by simp
      with Cons.prems(4) have "\<not> isFatal (resolveEach h resource (entry # rest) ctx ! Suc j)"
        by blast
      then show "\<not> isFatal (resolveEach h resource rest c ! j)" by (simp add: rc)
    qed
    note IH = Cons.IH[OF a Cons.prems(3) b]
    have sk: "snd (resolveEach h resource (entry # rest) ctx ! k) = snd (resolveEach h resource rest c ! k')"
      using Suc by (simp add: rc)
    show ?thesis
    proof (cases r)
      case (Inl e')
      with nf have "isResolutionError e'" by (simp add: isFatal_def)
      with Inl rc IH[of "cause @ [e']"] sk show ?thesis
        by (simp add: drainLoop_step del: drainLoop.simps resolveEach.simps)
    next
      case (Inr v)
      with rc IH[of cause] sk show ?thesis
        by (simp add: drainLoop_step del: drainLoop.simps resolveEach.simps)
    qed
  qed
qed


lemma setResource_frame [simp]:
  "unresolved (setResource ctx r) = unresolved ctx"
  "refStore (setResource ctx r) = refStore ctx"
  "references (setResource ctx r) = references ctx"
  "resolver (setResource ctx r) = resolver ctx"
  "nextRef (setResource ctx r) = nextRef ctx"
  "stack (setResource ctx r) = stack ctx"
  by (simp_all add: setResource_def Let_def split: option.splits)

lemma resolveResource_frame [simp]:
  "unresolved (snd (resolveResource ctx u)) = unresolved ctx"
  "refStore (snd (resolveResource ctx u)) = refStore ctx"
  "references (snd (resolveResource ctx u)) = references ctx"
  "resolver (snd (resolveResource ctx u)) = resolver ctx"
  "nextRef (snd (resolveResource ctx u)) = nextRef ctx"
  "stack (snd (resolveResource ctx u)) = stack ctx"
  by (simp_all add: resolveResource_def Let_def split: option.splits sum.splits)

lemma resolveResourceUri_snd:
  "snd (resolveResourceUri ctx h r u) = ctx \<or>
   snd (resolveResourceUri ctx h r u) = snd (resolveResource ctx (canonicalPart u))"
  by (auto simp: resolveResourceUri_def Let_def hd_splitOn canonicalPart_def
           split: option.splits sum.splits prod.splits)

lemma resolveResourceUri_frame [simp]:
  "unresolved (snd (resolveResourceUri ctx h r u)) = unresolved ctx"
  "refStore (snd (resolveResourceUri ctx h r u)) = refStore ctx"
  "references (snd (resolveResourceUri ctx h r u)) = references ctx"
  "resolver (snd (resolveResourceUri ctx h r u)) = resolver ctx"
  "nextRef (snd (resolveResourceUri ctx h r u)) = nextRef ctx"
  "stack (snd (resolveResourceUri ctx h r u)) = stack ctx"
  using resolveResourceUri_snd [of ctx h r u] by auto

lemma unresolved_resolveEntry:
  "unresolved (snd (resolveEntry h resource entry ctx)) =
     map_option (\<lambda>m. mapDelete m (fst entry)) (unresolved ctx)"
  by (simp add: resolveEntry_def Let_def split: sum.splits)

lemma mapDelete_filter:
  "mapDelete (filter (\<lambda>(a, r). a \<notin> A) m) n = filter (\<lambda>(a, r). a \<notin> insert n A) m"
  by (induction m) (auto simp: mapDelete_def)

lemma length_resolveEach [simp]: "length (resolveEach h resource un ctx) = length un"
  by (induction un arbitrary: ctx) simp_all

lemma unresolved_trace:
  "k < length un \<Longrightarrow> unresolved ctx = Some (filter (\<lambda>(a, r). a \<notin> A) m) \<Longrightarrow>
   unresolved (snd (resolveEach h resource un ctx ! k)) =
     Some (filter (\<lambda>(a, r). a \<notin> A \<union> fst ` set (take (Suc k) un)) m)"
proof (induction un arbitrary: ctx k A)
  case Nil
  then show ?case by simp
next
  case (Cons entry rest)
  let ?c = "snd (resolveEntry h resource entry ctx)"
  have u: "unresolved ?c = Some (filter (\<lambda>(a, r). a \<notin> insert (fst entry) A) m)"
    using Cons.prems(2) by (simp add: unresolved_resolveEntry mapDelete_filter)
  show ?case
  proof (cases k)
    case 0
    with u show ?thesis by simp
  next
    case (Suc k')
    with Cons.prems have "k' < length rest" by simp
    from Cons.IH[OF this u] Suc show ?thesis by simp
  qed
qed

lemma filter_taken:
  "distinct (map fst un) \<Longrightarrow> filter (\<lambda>(a, r). a \<notin> fst ` set (take n un)) un = drop n un"
proof (induction un arbitrary: n)
  case Nil
  then show ?case by simp
next
  case (Cons x xs)
  show ?case
  proof (cases n)
    case 0
    then show ?thesis by (cases x) auto
  next
    case (Suc n')
    have "filter (\<lambda>(a, r). a \<notin> insert (fst x) (fst ` set (take n' xs))) xs
        = filter (\<lambda>(a, r). a \<notin> fst ` set (take n' xs)) xs"
      using Cons.prems by (intro filter_cong) (auto simp: image_iff)
    with Cons Suc show ?thesis by (cases x) auto
  qed
qed

lemma unresolved_final:
  "unresolved ctx = Some un \<Longrightarrow>
   unresolved (finalContext ctx (resolveEach h resource un ctx)) = Some []"
proof (cases "un = []")
  case True
  then show "unresolved ctx = Some un \<Longrightarrow> ?thesis" by (simp add: finalContext_def)
next
  case False
  assume a: "unresolved ctx = Some un"
  from False have l: "length un - 1 < length un" by (cases un) simp_all
  have "unresolved ctx = Some (filter (\<lambda>(a, r). a \<notin> {}) un)" using a by simp
  have ne: "resolveEach h resource un ctx \<noteq> []"
    using False by (cases un) simp_all
  have "last (resolveEach h resource un ctx) = resolveEach h resource un ctx ! (length un - 1)"
    using last_conv_nth [OF ne] by simp
  with unresolved_trace[OF l \<open>unresolved ctx = Some (filter (\<lambda>(a, r). a \<notin> {}) un)\<close>, of h resource] False
  have "unresolved (snd (last (resolveEach h resource un ctx))) =
          Some (filter (\<lambda>(a, r). a \<notin> fst ` set un) un)"
    by simp
  moreover have "filter (\<lambda>(a, r). a \<notin> fst ` set un) un = []"
    by (auto simp: filter_empty_conv image_iff)
  ultimately show ?thesis using ne by (simp add: finalContext_def)
qed

lemma foldl_message:
  "foldl (\<lambda>message e. message @ [CHR 0x0A] @ ''  '' @ errorMessage e) acc errs
     = acc @ concat (map (\<lambda>e. [CHR 0x0A] @ ''  '' @ errorMessage e) errs)"
  by (induction errs arbitrary: acc) simp_all


text \<open>
  Claim C3. Let the outcomes of the entries of a defined \<open>unresolved\<close> map be listed
  one entry at a time (\<open>resolveEach\<close>). If no outcome is a failure other than a
  resolution error, \<open>resolveReferences\<close> ends in the context after the last entry
  with \<open>unresolved\<close> empty, and it returns normally when no entry failed, throws the
  one failure as it is when exactly one entry failed, and otherwise throws one
  \<open>ResolutionError\<close> whose message lists each failure's message and whose cause is
  the list of the failures in order. If the outcome of entry \<open>k\<close> is the first
  failure that is not a resolution error, \<open>resolveReferences\<close> throws that failure
  in the context right after entry \<open>k\<close>, where the entries after \<open>k\<close> are still in
  \<open>unresolved\<close>.
\<close>

theorem resolveReferences_aggregation:
  assumes "unresolved context = Some un" and "tr = resolveEach h resource un context"
  shows
  "((\<forall>oc \<in> set tr. \<not> isFatal oc) \<longrightarrow>
      snd (resolveReferences context h resource) = finalContext context tr \<and>
      unresolved (snd (resolveReferences context h resource)) = Some [] \<and>
      (failuresOf tr = [] \<longrightarrow> fst (resolveReferences context h resource) = Inr ()) \<and>
      (\<forall>e. failuresOf tr = [e] \<longrightarrow> fst (resolveReferences context h resource) = Inl e) \<and>
      (2 \<le> length (failuresOf tr) \<longrightarrow>
         fst (resolveReferences context h resource) =
           Inl (ResolutionError (aggregateMessage (failuresOf tr))
                 (Some (currentLocation (snd (resolveReferences context h resource))))
                 (failuresOf tr)))) \<and>
   (\<forall>k e. k < length tr \<and> fst (tr ! k) = Inl e \<and> \<not> isResolutionError e \<and>
          (\<forall>j < k. \<not> isFatal (tr ! j)) \<longrightarrow>
      fst (resolveReferences context h resource) = Inl e \<and>
      snd (resolveReferences context h resource) = snd (tr ! k) \<and>
      (distinct (map fst un) \<longrightarrow>
         unresolved (snd (resolveReferences context h resource)) = Some (drop (Suc k) un)))"
proof (intro conjI impI allI)
  assume nf: "\<forall>oc \<in> set tr. \<not> isFatal oc"
  then have d: "drainLoop h resource un context [] = (Inr (failuresOf tr), finalContext context tr)"
    using drainLoop_no_fatal [of h resource un "context" "[]"] assms(2) by simp
  have r: "resolveReferences context h resource =
      (if 2 \<le> length (failuresOf tr) then
         Inl (ResolutionError (aggregateMessage (failuresOf tr))
               (Some (currentLocation (finalContext context tr))) (failuresOf tr))
       else if failuresOf tr \<noteq> [] then Inl (hd (failuresOf tr))
       else Inr (), finalContext context tr)"
    using assms(1) d unfolding resolveReferences_def foldl_message aggregateMessage_def
    by simp
  show "snd (resolveReferences context h resource) = finalContext context tr"
    by (simp add: r)
  then show "unresolved (snd (resolveReferences context h resource)) = Some []"
    using unresolved_final [OF assms(1), of h resource] assms(2) by simp
  show "fst (resolveReferences context h resource) = Inr ()" if "failuresOf tr = []"
    using that by (simp add: r)
  show "fst (resolveReferences context h resource) = Inl e" if "failuresOf tr = [e]" for e
    using that by (simp add: r)
  show "fst (resolveReferences context h resource) =
           Inl (ResolutionError (aggregateMessage (failuresOf tr))
                 (Some (currentLocation (snd (resolveReferences context h resource))))
                 (failuresOf tr))" if "2 \<le> length (failuresOf tr)"
    using that by (simp add: r)
next
  fix k e
  assume a: "k < length tr \<and> fst (tr ! k) = Inl e \<and> \<not> isResolutionError e \<and>
          (\<forall>j < k. \<not> isFatal (tr ! j))"
  then have d: "drainLoop h resource un context [] = (Inl e, snd (tr ! k))"
    using drainLoop_fatal [of k h resource un "context" e "[]"] assms(2) by simp
  then have r: "resolveReferences context h resource = (Inl e, snd (tr ! k))"
    using assms(1) by (simp add: resolveReferences_def)
  show "fst (resolveReferences context h resource) = Inl e" by (simp add: r)
  show "snd (resolveReferences context h resource) = snd (tr ! k)" by (simp add: r)
  show "unresolved (snd (resolveReferences context h resource)) = Some (drop (Suc k) un)"
    if "distinct (map fst un)"
  proof -
    have "unresolved context = Some (filter (\<lambda>(a, r). a \<notin> {}) un)"
      using assms(1) by simp
    from unresolved_trace [where k = k and un = un and ctx = "context" and A = "{}" and m = un
                              and h = h and resource = resource] this a assms(2)
    show ?thesis by (simp add: r filter_taken [OF that])
  qed
qed

lemma twoReferences_unresolved: "unresolved (twoReferences r) = Some [(0, 0), (1, 1)]"
  by (simp add: twoReferences_def registerReference_def createContext_def Let_def)

lemmas scenario_defs = twoReferences_def registerReference_def createContext_def Let_def
  resolveEntry_def resolveResourceUri_def resolveResource_def currentLocation_def
  createReference_def setResource_def createResource_def endsWith_def finalContext_def

lemma trace_none:
  "map fst (resolveEach scenarioHeap None [(0, 0), (1, 1)] (twoReferences None)) =
     [Inl (unknownResource ''m1''), Inl (unknownResource ''m2'')]"
  "currentLocation (finalContext (twoReferences None)
     (resolveEach scenarioHeap None [(0, 0), (1, 1)] (twoReferences None))) = []"
  by (simp_all add: scenario_defs unknownResource_def)

lemma trace_throwing:
  "map fst (resolveEach scenarioHeap None [(0, 0), (1, 1)] (twoReferences (Some throwingResolver))) =
     [Inl (Error ''boom''), Inl (Error ''boom'')]"
  by (simp add: scenario_defs throwingResolver_def)

lemma trace_partial:
  "map fst (resolveEach scenarioHeap None [(0, 0), (1, 1)] (twoReferences (Some partialResolver))) =
     [Inr (Ptr 2), Inl (unknownResource ''m2'')]"
  by (simp add: scenario_defs partialResolver_def unknownResource_def)

lemma trace_full:
  "map fst (resolveEach scenarioHeap None [(0, 0), (1, 1)] (twoReferences (Some fullResolver))) =
     [Inr (Ptr 2), Inr (Ptr 3)]"
  by (simp add: scenario_defs fullResolver_def)

lemma failuresOf_map_fst:
  "map fst tr = map fst tr' \<Longrightarrow> failuresOf tr = failuresOf tr'"
proof (induction tr arbitrary: tr')
  case Nil
  then show ?case by simp
next
  case (Cons oc tr)
  then obtain oc' tr'' where t: "tr' = oc' # tr''" by (cases tr') auto
  with Cons.prems have "fst oc = fst oc'" "map fst tr = map fst tr''" by simp_all
  with Cons.IH[of tr''] t show ?case
    by (cases oc; cases oc'; cases "fst oc") auto
qed

lemma failuresOf_fst:
  "failuresOf tr = concat (map (\<lambda>r. case r of Inl e \<Rightarrow> [e] | Inr v \<Rightarrow> []) (map fst tr))"
  by (induction tr rule: failuresOf.induct) simp_all

lemma isFatal_fst:
  "(\<forall>oc \<in> set tr. \<not> isFatal oc) =
   (\<forall>r \<in> set (map fst tr). case r of Inl e \<Rightarrow> isResolutionError e | Inr v \<Rightarrow> True)"
  by (auto simp: isFatal_def split: sum.splits)

theorem resolveReferences_aggregation_witness:
  "fst (resolveReferences (twoReferences None) scenarioHeap None) =
     Inl (ResolutionError (aggregateMessage [unknownResource ''m1'', unknownResource ''m2''])
           (Some []) [unknownResource ''m1'', unknownResource ''m2'']) \<and>
   unresolved (snd (resolveReferences (twoReferences None) scenarioHeap None)) = Some [] \<and>
   fst (resolveReferences (twoReferences (Some partialResolver)) scenarioHeap None) =
     Inl (unknownResource ''m2'') \<and>
   fst (resolveReferences (twoReferences (Some fullResolver)) scenarioHeap None) = Inr () \<and>
   fst (resolveReferences (twoReferences (Some throwingResolver)) scenarioHeap None) =
     Inl (Error ''boom'') \<and>
   unresolved (snd (resolveReferences (twoReferences (Some throwingResolver)) scenarioHeap None)) =
     Some [(1, 1)]"
proof -
  note t = resolveReferences_aggregation [where h = scenarioHeap and resource = None,
             OF twoReferences_unresolved refl]
  let ?tr = "\<lambda>r. resolveEach scenarioHeap None [(0, 0), (1, 1)] (twoReferences r)"
  have fa: "failuresOf (?tr None) = [unknownResource ''m1'', unknownResource ''m2'']"
    unfolding failuresOf_fst trace_none by simp
  have na: "\<forall>oc \<in> set (?tr None). \<not> isFatal oc"
    unfolding isFatal_fst trace_none by (simp add: unknownResource_def)
  from t [of None] na
  have a1: "snd (resolveReferences (twoReferences None) scenarioHeap None) =
              finalContext (twoReferences None) (?tr None)"
    and a2: "unresolved (snd (resolveReferences (twoReferences None) scenarioHeap None)) = Some []"
    and a3: "2 \<le> length (failuresOf (?tr None)) \<longrightarrow>
         fst (resolveReferences (twoReferences None) scenarioHeap None) =
           Inl (ResolutionError (aggregateMessage (failuresOf (?tr None)))
                 (Some (currentLocation (snd (resolveReferences (twoReferences None) scenarioHeap None))))
                 (failuresOf (?tr None)))"
    by blast+
  have a: "fst (resolveReferences (twoReferences None) scenarioHeap None) =
     Inl (ResolutionError (aggregateMessage [unknownResource ''m1'', unknownResource ''m2''])
           (Some []) [unknownResource ''m1'', unknownResource ''m2''])"
    using a3 unfolding a1 trace_none(2) fa by simp
  have fb: "failuresOf (?tr (Some partialResolver)) = [unknownResource ''m2'']"
    unfolding failuresOf_fst trace_partial by simp
  have nb: "\<forall>oc \<in> set (?tr (Some partialResolver)). \<not> isFatal oc"
    unfolding isFatal_fst trace_partial by (simp add: unknownResource_def)
  from t [of "Some partialResolver"] nb fb
  have b: "fst (resolveReferences (twoReferences (Some partialResolver)) scenarioHeap None) =
     Inl (unknownResource ''m2'')"
    by blast
  have fc: "failuresOf (?tr (Some fullResolver)) = []"
    unfolding failuresOf_fst trace_full by simp
  have nc: "\<forall>oc \<in> set (?tr (Some fullResolver)). \<not> isFatal oc"
    unfolding isFatal_fst trace_full by simp
  from t [of "Some fullResolver"] nc fc
  have c: "fst (resolveReferences (twoReferences (Some fullResolver)) scenarioHeap None) = Inr ()"
    by blast
  have "map fst (?tr (Some throwingResolver)) ! 0 = Inl (Error ''boom'')"
    unfolding trace_throwing by simp
  then have d0: "fst (?tr (Some throwingResolver) ! 0) = Inl (Error ''boom'')"
    by (simp del: resolveEach.simps)
  have d1: "0 < length (?tr (Some throwingResolver))" "\<not> isResolutionError (Error ''boom'')"
    "\<forall>j < (0::nat). \<not> isFatal (?tr (Some throwingResolver) ! j)"
    "distinct (map fst [(0::nat, 0::nat), (1, 1)])"
    by simp_all
  from t [of "Some throwingResolver", THEN conjunct2, rule_format, of 0 "Error ''boom''"] d0 d1
  have d: "fst (resolveReferences (twoReferences (Some throwingResolver)) scenarioHeap None) =
       Inl (Error ''boom'')"
    "unresolved (snd (resolveReferences (twoReferences (Some throwingResolver)) scenarioHeap None)) =
       Some (drop (Suc 0) [(0, 0), (1, 1)])"
    by blast+
  from a a2 b c d show ?thesis by simp
qed
section \<open>Full drain\<close>

text \<open>\<open>resolveResourceUri\<close> in terms of the two parts of the URI. The empty fragment
  is a case of \<open>resolveResourceFragment\<close>.\<close>

lemma resolveResourceUri_eq:
  "resolveResourceUri ctx h resource u =
     (if canonicalPart u \<noteq> [] then
        (case resolveResource ctx (canonicalPart u) of
           (Inl e, c1) \<Rightarrow> (Inl e, c1)
         | (Inr None, c1) \<Rightarrow>
             (Inl (ResolutionError (''Unknown resource '' @ JSON_stringify (canonicalPart u))
                    (Some (currentLocation c1)) []), c1)
         | (Inr (Some r), c1) \<Rightarrow> (resolveResourceFragment c1 h r (fragmentPart u), c1))
      else
        (case resource of
           None \<Rightarrow>
             (Inl (ResolutionError
                    (''Cannot resolve relative URI reference '' @ JSON_stringify u @
                     '' because the stack has no base node'')
                    (Some (currentLocation ctx)) []), ctx)
         | Some r \<Rightarrow> (resolveResourceFragment ctx h r (fragmentPart u), ctx)))"
proof (cases "CHR ''#'' \<in> set u")
  case True
  then show ?thesis
    unfolding resolveResourceUri_def take2_splitOn
    by (simp add: canonicalPart_def fragmentPart_def resolveResourceFragment_def
             split: prod.splits sum.splits option.splits)
next
  case False
  then show ?thesis
    unfolding resolveResourceUri_def take2_splitOn
    by (simp add: canonicalPart_def fragmentPart_def resolveResourceFragment_def
             takeWhile_absent dropWhile_absent
             split: prod.splits sum.splits option.splits)
qed

lemma canonicalPart_no_hash: "CHR ''#'' \<notin> set (canonicalPart u)"
  unfolding canonicalPart_def by (auto dest: set_takeWhileD)

lemma no_hash_endsWith: "CHR ''#'' \<notin> set u \<Longrightarrow> \<not> endsWith u ''#''"
proof
  assume n: "CHR ''#'' \<notin> set u" and "endsWith u ''#''"
  then have "u \<noteq> []" "drop (length u - 1) u = ''#''" by (auto simp: endsWith_def)
  then have "CHR ''#'' \<in> set (drop (length u - 1) u)" by simp
  then have "CHR ''#'' \<in> set u" by (rule in_set_dropD)
  with n show False by simp
qed

text \<open>The success of fragment resolution does not depend on the context.\<close>

lemma resolveResourceFragment_value:
  "resolveResourceFragment ctx h r f = Inr v \<Longrightarrow> resolveResourceFragment ctx' h r f = Inr v"
  by (auto simp: resolveResourceFragment_def split: if_splits option.splits)

text \<open>What \<open>setResource\<close> and \<open>resolveResource\<close> do to the registry of canonical URIs.\<close>

lemma canonical_setResource:
  "canonical (setResource c r) u =
     (case Resource.uri r of
        None \<Rightarrow> canonical c u
      | Some cu \<Rightarrow> if u = cu \<or> (endsWith cu ''#'' \<and> u = butlast cu) then Some r
                   else canonical c u)"
  by (simp add: setResource_def Let_def split: option.splits)

lemma canonical_resolveResource_kept:
  assumes "resolverAnswers c u2" and "CHR ''#'' \<notin> set u2" and "CHR ''#'' \<notin> set u"
    and "canonical c u = Some r"
  shows "canonical (snd (resolveResource c u2)) u = Some r"
proof (cases "canonical c u2")
  case (Some r2)
  with assms(4) show ?thesis by (simp add: resolveResource_def)
next
  case None
  note cn = None
  with assms(4) have ne: "u \<noteq> u2" by auto
  from assms(3) have ne2: "u \<noteq> u2 @ ''#''" by auto
  show ?thesis
  proof (cases "resolver c")
    case None
    with cn assms(4) show ?thesis by (simp add: resolveResource_def)
  next
    case (Some f)
    show ?thesis
    proof (cases "f u2 (resolverCalls c)")
      case (Inl e)
      with cn Some assms(4) show ?thesis by (simp add: resolveResource_def Let_def)
    next
      case (Inr ro)
      show ?thesis
      proof (cases ro)
        case None
        with cn Some Inr assms(4) show ?thesis by (simp add: resolveResource_def Let_def)
      next
        case (Some r2)
        with assms(1) cn \<open>resolver c = Some f\<close> Inr
        have "Resource.uri r2 = Some u2 \<or> Resource.uri r2 = Some (u2 @ ''#'')"
          by (simp add: resolverAnswers_def)
        with cn \<open>resolver c = Some f\<close> Inr Some assms(4) ne ne2 no_hash_endsWith [OF assms(2)]
        show ?thesis
          by (auto simp: resolveResource_def Let_def canonical_setResource)
      qed
    qed
  qed
qed

lemma canonical_resolveResource_new:
  assumes "resolverAnswers c u" and "CHR ''#'' \<notin> set u"
    and "fst (resolveResource c u) = Inr (Some r)"
  shows "canonical (snd (resolveResource c u)) u = Some r"
proof (cases "canonical c u")
  case (Some r')
  with assms(3) show ?thesis by (simp add: resolveResource_def)
next
  case None
  note cn = None
  show ?thesis
  proof (cases "resolver c")
    case None
    with cn assms(3) show ?thesis by (simp add: resolveResource_def)
  next
    case (Some f)
    with cn assms(3) have fr: "f u (resolverCalls c) = Inr (Some r)"
      by (auto simp: resolveResource_def Let_def split: sum.splits option.splits)
    with assms(1) cn Some
    have "Resource.uri r = Some u \<or> Resource.uri r = Some (u @ ''#'')"
      by (simp add: resolverAnswers_def)
    with cn Some fr show ?thesis
      by (auto simp: resolveResource_def Let_def canonical_setResource endsWith_def)
  qed
qed

text \<open>
  One context is later than another when it has the same resolver and the same URIs
  of references, and knows every resource that the other knows under a URI without
  \<open>#\<close>.
\<close>

lemma resolverAnswers_later:
  assumes "resolverAnswers c u" and "resolver c' = resolver c"
    and "\<And>r. canonical c u = Some r \<Longrightarrow> canonical c' u = Some r"
  shows "resolverAnswers c' u"
  using assms by (cases "canonical c u") (auto simp: resolverAnswers_def split: option.splits)

lemma resolveResourceUri_later:
  assumes "resolverAnswers c (canonicalPart u2)"
  shows "resolver (snd (resolveResourceUri c h resource u2)) = resolver c"
    and "CHR ''#'' \<notin> set u \<Longrightarrow> canonical c u = Some r \<Longrightarrow>
         canonical (snd (resolveResourceUri c h resource u2)) u = Some r"
proof -
  show "resolver (snd (resolveResourceUri c h resource u2)) = resolver c" by simp
  show "canonical (snd (resolveResourceUri c h resource u2)) u = Some r"
    if "CHR ''#'' \<notin> set u" "canonical c u = Some r"
    using resolveResourceUri_snd [of c h resource u2]
          canonical_resolveResource_kept [OF assms canonicalPart_no_hash that]
          that(2)
    by auto
qed

text \<open>A successful resolution leaves the resource it used in the registry, or used the
  base resource.\<close>

lemma resolveResourceUri_success:
  assumes "resolverAnswers c (canonicalPart u)"
    and "fst (resolveResourceUri c h resource u) = Inr v"
  shows "\<exists>r. standsFor (snd (resolveResourceUri c h resource u)) resource (canonicalPart u) r \<and>
             resolveResourceFragment c h r (fragmentPart u) = Inr v"
proof (cases "canonicalPart u \<noteq> []")
  case True
  obtain a c1 where rc: "resolveResource c (canonicalPart u) = (a, c1)" by force
  with assms(2) True obtain r where a: "a = Inr (Some r)"
    and f: "resolveResourceFragment c1 h r (fragmentPart u) = Inr v"
    and s: "snd (resolveResourceUri c h resource u) = c1"
    by (auto simp: resolveResourceUri_eq split: sum.splits option.splits)
  from canonical_resolveResource_new [OF assms(1) canonicalPart_no_hash, of r] rc a
  have "canonical c1 (canonicalPart u) = Some r" by simp
  with True s resolveResourceFragment_value [OF f, of c] show ?thesis
    by (auto simp: standsFor_def)
next
  case False
  with assms(2) show ?thesis
    by (auto simp: resolveResourceUri_eq standsFor_def split: option.splits)
qed

lemma resolveResourceUri_registered:
  assumes "standsFor c resource (canonicalPart u) r"
    and "resolveResourceFragment c0 h r (fragmentPart u) = Inr v"
  shows "fst (resolveResourceUri c h resource u) = Inr v"
proof (cases "canonicalPart u \<noteq> []")
  case True
  with assms(1) have "resolveResource c (canonicalPart u) = (Inr (Some r), c)"
    by (simp add: resolveResource_def standsFor_def)
  with True resolveResourceFragment_value [OF assms(2), of c] show ?thesis
    by (simp add: resolveResourceUri_eq)
next
  case False
  with assms(1) resolveResourceFragment_value [OF assms(2), of c] show ?thesis
    by (simp add: resolveResourceUri_eq standsFor_def)
qed

lemma drainLoop_cause_prefix:
  "drainLoop h resource un ctx cause = (Inr cs, c') \<Longrightarrow> \<exists>ext. cs = cause @ ext"
proof (induction un arbitrary: ctx cause)
  case Nil
  then show ?case by simp
next
  case (Cons entry rest)
  obtain r c where rc: "resolveEntry h resource entry ctx = (r, c)" by force
  show ?case
  proof (cases r)
    case (Inl e)
    with Cons.prems rc have "drainLoop h resource rest c (cause @ [e]) = (Inr cs, c')"
      by (simp add: drainLoop_step del: drainLoop.simps split: if_splits)
    from Cons.IH[OF this] show ?thesis by auto
  next
    case (Inr v)
    with Cons.prems rc have "drainLoop h resource rest c cause = (Inr cs, c')"
      by (simp add: drainLoop_step del: drainLoop.simps)
    from Cons.IH[OF this] show ?thesis .
  qed
qed

text \<open>
  The invariant of a pass without failure. \<open>K\<close> holds the canonical parts of the URIs
  still to be resolved; \<open>G\<close> holds the references resolved so far, each with a target
  that is the fragment of its URI in a resource that the registry knows under the
  canonical part (or in the base resource).
\<close>

lemma drainLoop_targets:
  assumes "drainLoop h resource un ctx cause = (Inr [], ctx')"
    and "\<forall>u \<in> K. CHR ''#'' \<notin> set u \<and> resolverAnswers ctx u"
    and "\<forall>(n, rid) \<in> set un. canonicalPart (Reference.uri (refStore ctx rid)) \<in> K"
    and "\<forall>rid \<in> G. \<exists>v r.
            target (refStore ctx rid) = Some v \<and>
            standsFor ctx resource (canonicalPart (Reference.uri (refStore ctx rid))) r \<and>
            resolveResourceFragment c0 h r (fragmentPart (Reference.uri (refStore ctx rid))) = Inr v"
  shows "(\<forall>rid. Reference.uri (refStore ctx' rid) = Reference.uri (refStore ctx rid)) \<and>
         (\<forall>rid \<in> G \<union> snd ` set un. \<exists>v r.
            target (refStore ctx' rid) = Some v \<and>
            standsFor ctx' resource (canonicalPart (Reference.uri (refStore ctx rid))) r \<and>
            resolveResourceFragment c0 h r (fragmentPart (Reference.uri (refStore ctx rid))) = Inr v)"
  using assms
proof (induction un arbitrary: ctx cause G)
  case Nil
  then have "ctx' = ctx" by simp
  with Nil.prems(4) show ?case by simp
next
  case (Cons entry rest)
  obtain n rid where e: "entry = (n, rid)" by (cases entry)
  let ?u = "Reference.uri (refStore ctx rid)"
  let ?c1 = "ctx\<lparr>unresolved := map_option (\<lambda>m. mapDelete m n) (unresolved ctx)\<rparr>"
  let ?a = "resolveResourceUri ?c1 h resource ?u"
  obtain r c where rc: "resolveEntry h resource (n, rid) ctx = (r, c)" by force
  have "\<exists>v. r = Inr v"
  proof (cases r)
    case (Inl err)
    with Cons.prems(1) rc e have "drainLoop h resource rest c (cause @ [err]) = (Inr [], ctx')"
      by (simp add: drainLoop_step del: drainLoop.simps split: if_splits)
    from drainLoop_cause_prefix[OF this] show ?thesis by simp
  next
    case (Inr v)
    then show ?thesis by blast
  qed
  then obtain v where r: "r = Inr v" by blast
  from rc r have f: "fst ?a = Inr v"
    and c: "c = (snd ?a)\<lparr>refStore := (refStore (snd ?a))(rid := (refStore (snd ?a) rid)\<lparr>target := Some v\<rparr>)\<rparr>"
    by (auto simp: resolveEntry_def Let_def split: sum.splits)
  have d: "drainLoop h resource rest c cause = (Inr [], ctx')"
    using Cons.prems(1) rc e r by (simp add: drainLoop_step del: drainLoop.simps)
  have uK: "canonicalPart ?u \<in> K" using Cons.prems(3) e by auto
  have ans1: "resolverAnswers ?c1 u" if "u \<in> K" for u
  proof -
    from Cons.prems(2) that have "resolverAnswers ctx u" by simp
    then show ?thesis by (rule resolverAnswers_later) simp_all
  qed
  have kept: "canonical c u = Some r'" if "CHR ''#'' \<notin> set u" "canonical ctx u = Some r'" for u r'
    using resolveResourceUri_later(2) [OF ans1 [OF uK], of u r' h resource] that
    by (simp add: c)
  have rs: "refStore c = (refStore ctx)(rid := (refStore ctx rid)\<lparr>target := Some v\<rparr>)"
    by (simp add: c)
  have uc: "Reference.uri (refStore c rid') = Reference.uri (refStore ctx rid')" for rid'
    by (simp add: rs)
  have k: "\<forall>u \<in> K. CHR ''#'' \<notin> set u \<and> resolverAnswers c u"
  proof
    fix u assume m: "u \<in> K"
    with Cons.prems(2) have n: "CHR ''#'' \<notin> set u" and a: "resolverAnswers ctx u" by simp_all
    have "resolver c = resolver ctx" by (simp add: c)
    with a have "resolverAnswers c u"
      by (rule resolverAnswers_later) (rule kept [OF n])
    with n show "CHR ''#'' \<notin> set u \<and> resolverAnswers c u" ..
  qed
  have u3: "\<forall>(n, rid) \<in> set rest. canonicalPart (Reference.uri (refStore c rid)) \<in> K"
    using Cons.prems(3) by (auto simp: uc)
  from resolveResourceUri_success [OF ans1 [OF uK] f]
  obtain r0 where r0:
    "standsFor (snd ?a) resource (canonicalPart ?u) r0"
    "resolveResourceFragment ?c1 h r0 (fragmentPart ?u) = Inr v"
    by blast
  have g: "\<forall>rid' \<in> insert rid G. \<exists>v' r'.
            target (refStore c rid') = Some v' \<and>
            standsFor c resource (canonicalPart (Reference.uri (refStore c rid'))) r' \<and>
            resolveResourceFragment c0 h r' (fragmentPart (Reference.uri (refStore c rid'))) = Inr v'"
  proof
    fix rid' assume m: "rid' \<in> insert rid G"
    show "\<exists>v' r'.
            target (refStore c rid') = Some v' \<and>
            standsFor c resource (canonicalPart (Reference.uri (refStore c rid'))) r' \<and>
            resolveResourceFragment c0 h r' (fragmentPart (Reference.uri (refStore c rid'))) = Inr v'"
    proof (cases "rid' = rid")
      case True
      have "target (refStore c rid) = Some v" by (simp add: rs)
      moreover have "standsFor c resource (canonicalPart ?u) r0"
        using r0(1) by (simp add: c standsFor_def)
      moreover have "resolveResourceFragment c0 h r0 (fragmentPart ?u) = Inr v"
        using r0(2) by (rule resolveResourceFragment_value)
      ultimately show ?thesis unfolding True uc by blast
    next
      case False
      with m have "rid' \<in> G" by simp
      with Cons.prems(4) obtain v' r' where x:
        "target (refStore ctx rid') = Some v'"
        "standsFor ctx resource (canonicalPart (Reference.uri (refStore ctx rid'))) r'"
        "resolveResourceFragment c0 h r' (fragmentPart (Reference.uri (refStore ctx rid'))) = Inr v'"
        by blast
      have "target (refStore c rid') = Some v'" using x(1) False by (simp add: rs)
      moreover have "standsFor c resource (canonicalPart (Reference.uri (refStore ctx rid'))) r'"
        using x(2) kept [OF canonicalPart_no_hash] by (auto simp: standsFor_def split: if_splits)
      ultimately show ?thesis unfolding uc using x(3) by blast
    qed
  qed
  from Cons.IH [OF d k u3 g] uc e show ?case by auto
qed

text \<open>
  Claim C1, as amended. Let \<open>unresolved\<close> be defined, and let the external resolver of
  the context (if the context has one), for the canonical part \<open>u\<close> of the URI of
  each unresolved reference that the registry does not know, return at every call
  only resources whose canonical URI is \<open>u\<close>, with or without a \<open>#\<close> at its end. If
  \<open>resolveReferences\<close> returns without throwing, then \<open>unresolved\<close> is empty
  afterwards and the target of every reference that was drained is the node that
  \<open>resolveResourceUri\<close> returns, in the context after the call and with the same
  base resource, for the URI of that reference.
\<close>

theorem resolveReferences_full_drain:
  assumes "unresolved ctx = Some un"
    and "answersUnderRequestedUri ctx un"
    and "fst (resolveReferences ctx h resource) = Inr ()"
  shows "unresolved (snd (resolveReferences ctx h resource)) = Some [] \<and>
         (\<forall>(n, reference) \<in> set un.
            \<exists>v. target (refStore (snd (resolveReferences ctx h resource)) reference) = Some v \<and>
                fst (resolveResourceUri (snd (resolveReferences ctx h resource)) h resource
                       (Reference.uri (refStore (snd (resolveReferences ctx h resource)) reference)))
                  = Inr v)"
proof -
  obtain a c' where d: "drainLoop h resource un ctx [] = (a, c')" by force
  from assms(1,3) d have a: "a = Inr []" and r: "resolveReferences ctx h resource = (Inr (), c')"
    by (auto simp: resolveReferences_def split: sum.splits if_splits)
  let ?K = "(\<lambda>(n, rid). canonicalPart (Reference.uri (refStore ctx rid))) ` set un"
  have k: "\<forall>u \<in> ?K. CHR ''#'' \<notin> set u \<and> resolverAnswers ctx u"
    using assms(2) by (auto simp: answersUnderRequestedUri_def canonicalPart_no_hash)
  have m: "\<forall>(n, rid) \<in> set un. canonicalPart (Reference.uri (refStore ctx rid)) \<in> ?K"
    by auto
  from drainLoop_targets [OF d [unfolded a] k m, of "{}" ctx]
  have u: "\<And>rid. Reference.uri (refStore c' rid) = Reference.uri (refStore ctx rid)"
    and t: "\<forall>rid \<in> snd ` set un. \<exists>v r.
            target (refStore c' rid) = Some v \<and>
            standsFor c' resource (canonicalPart (Reference.uri (refStore ctx rid))) r \<and>
            resolveResourceFragment ctx h r (fragmentPart (Reference.uri (refStore ctx rid))) = Inr v"
    by simp_all
  have e: "unresolved c' = Some []"
  proof -
    have nf: "\<forall>oc \<in> set (resolveEach h resource un ctx). \<not> isFatal oc"
    proof (rule ccontr)
      assume "\<not> ?thesis"
      then obtain i where i: "i < length (resolveEach h resource un ctx)"
        "isFatal (resolveEach h resource un ctx ! i)"
        by (auto simp: in_set_conv_nth)
      define k where "k = (LEAST i. i < length (resolveEach h resource un ctx) \<and>
                              isFatal (resolveEach h resource un ctx ! i))"
      have k: "k < length (resolveEach h resource un ctx) \<and> isFatal (resolveEach h resource un ctx ! k)"
        unfolding k_def using i by (rule LeastI [of _ i, OF conjI])
      have m: "\<forall>j < k. \<not> isFatal (resolveEach h resource un ctx ! j)"
      proof (intro allI impI)
        fix j assume "j < k"
        then have "\<not> (j < length (resolveEach h resource un ctx) \<and> isFatal (resolveEach h resource un ctx ! j))"
          unfolding k_def by (rule not_less_Least)
        with \<open>j < k\<close> k show "\<not> isFatal (resolveEach h resource un ctx ! j)" by simp
      qed
      from k obtain err where "fst (resolveEach h resource un ctx ! k) = Inl err" "\<not> isResolutionError err"
        by (auto simp: isFatal_def split: sum.splits)
      from drainLoop_fatal [OF conjunct1 [OF k] this m, of "[]"] d a show False by simp
    qed
    from drainLoop_no_fatal [OF nf, of "[]"] d have "c' = finalContext ctx (resolveEach h resource un ctx)"
      by simp
    with unresolved_final [OF assms(1), of h resource] show ?thesis by simp
  qed
  have "\<exists>v. target (refStore c' rid) = Some v \<and>
            fst (resolveResourceUri c' h resource (Reference.uri (refStore c' rid))) = Inr v"
    if "(n, rid) \<in> set un" for n rid
  proof -
    from that have "rid \<in> snd ` set un" by force
    with t obtain v r0 where
      x: "target (refStore c' rid) = Some v"
         "standsFor c' resource (canonicalPart (Reference.uri (refStore ctx rid))) r0"
         "resolveResourceFragment ctx h r0 (fragmentPart (Reference.uri (refStore ctx rid))) = Inr v"
      by blast
    from resolveResourceUri_registered [OF x(2,3)] x(1) show ?thesis by (auto simp: u)
  qed
  with e show ?thesis unfolding r by auto
qed

theorem resolveReferences_full_drain_witness:
  "unresolved (twoReferences (Some fullResolver)) = Some [(0, 0), (1, 1)] \<and>
   answersUnderRequestedUri (twoReferences (Some fullResolver)) [(0, 0), (1, 1)] \<and>
   fst (resolveReferences (twoReferences (Some fullResolver)) scenarioHeap None) = Inr () \<and>
   unresolved (snd (resolveReferences (twoReferences (Some fullResolver)) scenarioHeap None)) = Some [] \<and>
   (\<exists>v. target (refStore (snd (resolveReferences (twoReferences (Some fullResolver)) scenarioHeap None)) 1)
          = Some v \<and>
        fst (resolveResourceUri (snd (resolveReferences (twoReferences (Some fullResolver)) scenarioHeap None))
               scenarioHeap None
               (Reference.uri (refStore (snd (resolveReferences (twoReferences (Some fullResolver))
                                                 scenarioHeap None)) 1))) = Inr v)"
proof -
  let ?c = "twoReferences (Some fullResolver)"
  have cp: "canonicalPart ''m1'' = ''m1''" "canonicalPart ''m2'' = ''m2''"
    by (simp_all add: canonicalPart_def)
  have a: "answersUnderRequestedUri ?c [(0, 0), (1, 1)]"
    by (simp add: answersUnderRequestedUri_def resolverAnswers_def twoReferences_def
          registerReference_def createContext_def Let_def fullResolver_def createResource_def cp)
  have r: "fst (resolveReferences ?c scenarioHeap None) = Inr ()"
    by (simp add: resolveReferences_def scenario_defs fullResolver_def)
  from resolveReferences_full_drain [OF twoReferences_unresolved a r]
  show ?thesis using a r twoReferences_unresolved by auto
qed

text \<open>
  Without the condition on the resolver the claim fails. The resolver of the first
  context answers \<open>m1\<close> with a resource registered under another URI and \<open>m2\<close> with a
  resource registered under \<open>m1\<close>: the pass returns normally with the first
  reference resolved to node 2, and resolving its URI \<open>m1\<close> afterwards yields node 3.
  The resolver of the second context answers \<open>m1\<close> with a resource that has no
  canonical URI, around a node made for the call: the registry does not keep it, and
  resolving \<open>m1\<close> again yields the node of the next call.
\<close>

theorem resolveReferences_full_drain_counterexample:
  "unresolved (twoReferences (Some crossedResolver)) = Some [(0, 0), (1, 1)] \<and>
   fst (resolveReferences (twoReferences (Some crossedResolver)) scenarioHeap None) = Inr () \<and>
   target (refStore (snd (resolveReferences (twoReferences (Some crossedResolver)) scenarioHeap None)) 0)
     = Some (Ptr 2) \<and>
   Reference.uri (refStore (snd (resolveReferences (twoReferences (Some crossedResolver)) scenarioHeap None)) 0)
     = ''m1'' \<and>
   fst (resolveResourceUri (snd (resolveReferences (twoReferences (Some crossedResolver)) scenarioHeap None))
          scenarioHeap None ''m1'') = Inr (Ptr 3) \<and>
   unresolved (oneReference (Some buildingResolver)) = Some [(0, 0)] \<and>
   fst (resolveReferences (oneReference (Some buildingResolver)) scenarioHeap None) = Inr () \<and>
   target (refStore (snd (resolveReferences (oneReference (Some buildingResolver)) scenarioHeap None)) 0)
     = Some (Ptr 2) \<and>
   Reference.uri (refStore (snd (resolveReferences (oneReference (Some buildingResolver)) scenarioHeap None)) 0)
     = ''m1'' \<and>
   fst (resolveResourceUri (snd (resolveReferences (oneReference (Some buildingResolver)) scenarioHeap None))
          scenarioHeap None ''m1'') = Inr (Ptr 3)"
  by (simp add: resolveReferences_def scenario_defs crossedResolver_def buildingResolver_def
        oneReference_def)

section \<open>Nested frames\<close>

lemma pushFrame_stack:
  "stack (snd (pushFrame ctx)) = Some (fst (pushFrame ctx))"
  "Frame.parent (fst (pushFrame ctx)) = stack ctx"
  "frameId (fst (pushFrame ctx)) = nextFrame ctx"
  by (simp_all add: pushFrame_def createFrame_def)

lemma popFrame_top:
  "stack c = Some frame \<Longrightarrow> snd (popFrame c) = c\<lparr>stack := Frame.parent frame\<rparr>"
  by (simp add: popFrame_def Let_def)




section \<open>Tree shaking\<close>

lemma collisionContext_refs:
  "getReference collisionContext (Ptr a) =
     (if a = 1 then Some \<lparr>key = ''$ref'', uri = ''a.json#/item'', target = Some (Ptr 3)\<rparr>
      else if a = 2 then Some \<lparr>key = ''$ref'', uri = ''b.json#/item'', target = Some (Ptr 4)\<rparr>
      else None)"
  by (simp add: collisionContext_def resolvedContext_def registerReference_def createContext_def
        Let_def getReference_def referenceOf_def createReference_def)

lemma uriName_item: "uriName ''a.json#/item'' = ''item''" "uriName ''b.json#/item'' = ''item''"
  by (simp_all add: uriName_def lastIndexOf_def)

lemma four: "4 + k = Suc (Suc (Suc (Suc k)))"
  by simp

text \<open>
  Claim C2, where names collide. The claim has a name that is already assigned to
  another target replaced by the name with a counter appended, so that distinct
  targets get distinct names. The loop that appends the counter tests \<open>key in defs\<close>,
  and \<open>defs\<close> receives its first property in the rewrite phase only; during the mark
  phase it finds no name taken. Here two reference nodes whose URIs both end in
  \<open>item\<close> have been resolved to two different nodes: both targets are named
  \<open>item\<close>, the output has the one definition \<open>item\<close> (the rewritten first target),
  and both rewritten reference nodes point to it.
\<close>

theorem collectReferences_name_collision:
  "map_option refs (markPhase (4 + k) collisionContext collisionHeap collisionOptions) =
     Some [(Ptr 3, ''item''), (Ptr 4, ''item'')] \<and>
   map_option (\<lambda>r. (newRoots r, newDefs r, drop 5 (newHeap r)))
       (treeShakeReferences (4 + k) collisionContext collisionHeap collisionOptions) =
     Some ([Ptr 8], Some [(''item'', Some (Ptr 5))],
           [Obj [(''type'', Str ''string'')],
            Obj [(''$ref'', Str ''#/components/schemas/item'')],
            Obj [(''$ref'', Str ''#/components/schemas/item'')],
            Obj [(''p'', Ptr 6), (''q'', Ptr 7)]])"
proof -
  have m: "markPhase (4 + k) collisionContext collisionHeap collisionOptions =
     Some ((newShake collisionContext collisionHeap)
             \<lparr>visited := [Ptr 0, Ptr 1, Ptr 3, Ptr 2, Ptr 4], refs := [(Ptr 3, ''item''), (Ptr 4, ''item'')]\<rparr>)"
    unfolding four
    by (simp add: markPhase_def newShake_def collisionOptions_def collisionHeap_def
        collectReferences.simps collisionContext_refs uriName_item heapGet_def objectValues_def Let_def
        isObject_def)
  have e: "escapePointer ''item'' = ''item''"
    by (simp add: escapePointer_def escapeLoop.simps Let_def)
  have r: "map_option (\<lambda>r. (newRoots r, newDefs r, drop 5 (newHeap r)))
       (treeShakeReferences (4 + k) collisionContext collisionHeap collisionOptions) =
     Some ([Ptr 8], Some [(''item'', Some (Ptr 5))],
           [Obj [(''type'', Str ''string'')],
            Obj [(''$ref'', Str ''#/components/schemas/item'')],
            Obj [(''$ref'', Str ''#/components/schemas/item'')],
            Obj [(''p'', Ptr 6), (''q'', Ptr 7)]])"
    unfolding treeShakeReferences_def m
    unfolding four
    by (simp add: newShake_def collisionOptions_def collisionHeap_def rewriteNode.simps e
        heapGet_def Let_def isObject_def setDef_def getDef_def inDefs_def alloc_def
        assignEntries_def objectPrototypeKeys_def
        registerRewritten_def getReference_def referenceOf_def createReference_def
        collisionContext_def resolvedContext_def registerReference_def createContext_def)
  from m r show ?thesis by simp
qed

section \<open>The rewrite allocates and never overwrites its input\<close>

lemma heapExtends_refl [simp]: "heapExtends h h"
  by (simp add: heapExtends_def)

lemma heapExtends_length: "heapExtends h h' \<Longrightarrow> length h \<le> length h'"
proof -
  assume "heapExtends h h'"
  then have "length (take (length h) h') = length h" by (simp add: heapExtends_def)
  then show ?thesis by simp
qed

lemma heapExtends_trans: "heapExtends h h1 \<Longrightarrow> heapExtends h1 h2 \<Longrightarrow> heapExtends h h2"
proof -
  assume a: "heapExtends h h1" and b: "heapExtends h1 h2"
  from a have l: "length h \<le> length h1" by (rule heapExtends_length)
  have "take (length h) h2 = take (length h) (take (length h1) h2)"
    using l by (simp add: min_def)
  also have "\<dots> = take (length h) h1" using b by (simp add: heapExtends_def)
  also have "\<dots> = h" using a by (simp add: heapExtends_def)
  finally show ?thesis by (simp add: heapExtends_def)
qed

lemma heapExtends_alloc: "heapExtends h (snd (alloc h ob))" "fst (alloc h ob) = length h"
  by (simp_all add: heapExtends_def alloc_def)

lemma heapExtends_append [simp]: "heapExtends h (h @ t)"
  by (simp add: heapExtends_def)

lemma heapExtends_nth: "heapExtends h h' \<Longrightarrow> a < length h \<Longrightarrow> h' ! a = h ! a"
proof -
  assume e: "heapExtends h h'" and a: "a < length h"
  have "h ! a = take (length h) h' ! a" using e by (simp add: heapExtends_def)
  also have "\<dots> = h' ! a" using a by simp
  finally show ?thesis by simp
qed

lemma set_mapSet: "set (mapSet m k v) \<subseteq> insert (k, v) (set m)"
  by (induction m) (auto split: if_splits)

lemma shakeOk_setDef_None: "shakeOk h0 rs s \<Longrightarrow> shakeOk h0 rs (setDef s name None)"
  using set_mapSet [of "case defs s of None \<Rightarrow> [] | Some d \<Rightarrow> d" name None]
  by (auto simp: shakeOk_def setDef_def)

lemma shakeOk_setDef_Some:
  "shakeOk h0 rs s \<Longrightarrow> freshAbove (length h0) v \<or> (\<not> isObject v \<and> (v, name) \<in> set rs) \<Longrightarrow>
   shakeOk h0 rs (setDef s name (Some v))"
  using set_mapSet [of "case defs s of None \<Rightarrow> [] | Some d \<Rightarrow> d" name "Some v"]
  by (auto simp: shakeOk_def setDef_def)

lemma shakeOk_defs_init:
  "shakeOk h0 rs s \<Longrightarrow> shakeOk h0 rs (s\<lparr>defs := Some (case defs s of None \<Rightarrow> [] | Some d \<Rightarrow> d)\<rparr>)"
  by (auto simp: shakeOk_def split: option.splits)

lemma shakeOk_heap:
  "shakeOk h0 rs s \<Longrightarrow> heapExtends h0 h' \<Longrightarrow> shakeOk h0 rs (s\<lparr>sheap := h'\<rparr>)"
  "shakeOk h0 rs s \<Longrightarrow> heapExtends h0 h' \<Longrightarrow> shakeOk h0 rs (s\<lparr>sheap := h', sctx := c\<rparr>)"
  by (auto simp: shakeOk_def)

lemma rewriteItems_ok:
  assumes f: "\<And>v s v' s'. f v s = Some (v', s') \<Longrightarrow> shakeOk h0 rs s \<Longrightarrow>
                shakeOk h0 rs s' \<and> itemOk (length h0) v v'"
    and "rewriteItems f vs s = Some (vs', s')" and "shakeOk h0 rs s"
  shows "shakeOk h0 rs s' \<and> list_all2 (itemOk (length h0)) vs vs'"
  using assms(2,3)
proof (induction vs arbitrary: s vs' s')
  case Nil
  then show ?case by simp
next
  case (Cons v vs)
  from Cons.prems(1) obtain v1 s1 vs1 where
    a: "(if isObject v then f v s else Some (v, s)) = Some (v1, s1)"
    and b: "rewriteItems f vs s1 = Some (vs1, s')" and c: "vs' = v1 # vs1"
    by (auto split: option.splits prod.splits)
  have 1: "shakeOk h0 rs s1 \<and> itemOk (length h0) v v1"
  proof (cases "isObject v")
    case True
    with a f [of v s v1 s1] Cons.prems(2) show ?thesis by simp
  next
    case False
    with a Cons.prems(2) show ?thesis by (auto simp: itemOk_def)
  qed
  from Cons.IH [OF b conjunct1 [OF 1]]
  have 2: "shakeOk h0 rs s' \<and> list_all2 (itemOk (length h0)) vs vs1" .
  from 1 2 c show ?case by simp
qed

lemma transform_ok:
  assumes "transformKeepsInput h0 opts" and "shakeOk h0 rs s2" and "itemOk (length h0) v n1"
    and "(case transform opts of
            None \<Rightarrow> Some (n1, s2)
          | Some f \<Rightarrow> (case f (sheap s2) n1 of (n'', h') \<Rightarrow> Some (n'', s2\<lparr>sheap := h'\<rparr>))) = Some (v', s')"
  shows "shakeOk h0 rs s' \<and> itemOk (length h0) v v'"
proof (cases "transform opts")
  case None
  with assms show ?thesis by simp
next
  case (Some f)
  obtain n'' h' where fh: "f (sheap s2) n1 = (n'', h')" by force
  with assms(4) Some have e: "v' = n''" "s' = s2\<lparr>sheap := h'\<rparr>" by simp_all
  have x: "heapExtends h0 (sheap s2)" using assms(2) by (simp add: shakeOk_def)
  have "freshAbove (length h0) n1 \<or> \<not> isObject n1" using assms(3) by (auto simp: itemOk_def)
  with assms(1) Some x
  have "heapExtends h0 (snd (f (sheap s2) n1)) \<and>
        (fst (f (sheap s2) n1) = n1 \<or> freshAbove (length h0) (fst (f (sheap s2) n1)))"
    by (simp add: transformKeepsInput_def)
  with fh have t: "heapExtends h0 h'" "n'' = n1 \<or> freshAbove (length h0) n''"
    by simp_all
  have 1: "shakeOk h0 rs s'" unfolding e using assms(2) t(1) by (rule shakeOk_heap(1))
  have 2: "itemOk (length h0) v v'"
    using t(2) assms(3) unfolding e by (auto simp: itemOk_def)
  from 1 2 show ?thesis ..
qed

lemma alloc_ok:
  assumes "shakeOk h0 rs s1" and "alloc (sheap s1) ob = (a, h')"
  shows "shakeOk h0 rs (s1\<lparr>sheap := h'\<rparr>)" "shakeOk h0 rs (s1\<lparr>sheap := h', sctx := c\<rparr>)"
    "itemOk (length h0) v (Ptr a)"
proof -
  have x: "heapExtends h0 (sheap s1)" using assms(1) by (simp add: shakeOk_def)
  have e: "heapExtends (sheap s1) h'" "a = length (sheap s1)"
    using assms(2) by (auto simp: alloc_def)
  from x e(1) have y: "heapExtends h0 h'" by (rule heapExtends_trans)
  show "shakeOk h0 rs (s1\<lparr>sheap := h'\<rparr>)" using assms(1) y by (rule shakeOk_heap(1))
  show "shakeOk h0 rs (s1\<lparr>sheap := h', sctx := c\<rparr>)" using assms(1) y by (rule shakeOk_heap(2))
  show "itemOk (length h0) v (Ptr a)"
    using heapExtends_length [OF x] e(2) by (simp add: itemOk_def freshAbove_def)
qed

lemma rewriteNode_ok:
  assumes T: "transformKeepsInput h0 opts"
  shows "rewriteNode fuel opts v s = Some (v', s') \<Longrightarrow> shakeOk h0 rs s \<Longrightarrow>
         shakeOk h0 rs s' \<and> itemOk (length h0) v v'"
proof (induction fuel arbitrary: v s v' s')
  case 0
  then show ?case by (simp add: rewriteNode.simps)
next
  case (Suc fuel)
  note IH = Suc.IH
  note d = Suc.prems(2)
  let ?refName = "case getReference (sctx s) v of
                       None \<Rightarrow> None
                     | Some r \<Rightarrow> (case target r of None \<Rightarrow> None | Some t \<Rightarrow> map_of (refs s) t)"
  let ?kind = "case v of
                 Ptr a \<Rightarrow> Some (heapGet (sheap s) a)
               | Proto p \<Rightarrow> Some (if p = ArrayPrototype then Arr [] else Obj [])
               | _ \<Rightarrow> None"
  have built: "shakeOk h0 rs s' \<and> itemOk (length h0) v v'"
    if ri: "rewriteItems (rewriteNode fuel opts) items s = Some (items', s1)"
      and al: "alloc (sheap s1) ob = (a, h')"
      and tr: "(case transform opts of
            None \<Rightarrow> Some (Ptr a, s1\<lparr>sheap := h'\<rparr>)
          | Some f \<Rightarrow> (case f (sheap (s1\<lparr>sheap := h'\<rparr>)) (Ptr a) of
                        (n'', h'') \<Rightarrow> Some (n'', s1\<lparr>sheap := h'\<rparr>\<lparr>sheap := h''\<rparr>))) = Some (v', s')"
    for items items' s1 ob a h'
  proof -
    from rewriteItems_ok [OF IH ri d] have "shakeOk h0 rs s1" by simp
    from alloc_ok(1,3) [OF this al]
    have "shakeOk h0 rs (s1\<lparr>sheap := h'\<rparr>)" "itemOk (length h0) v (Ptr a)" by simp_all
    from transform_ok [OF T this tr] show ?thesis .
  qed
  show ?case
  proof (cases ?refName)
    case None
    show ?thesis
    proof (cases ?kind)
      case None
      then have nv: "\<not> isObject v" by (auto simp: isObject_def split: val.splits)
      from Suc.prems(1) \<open>?refName = None\<close> None
      have "(case transform opts of
            None \<Rightarrow> Some (v, s)
          | Some f \<Rightarrow> (case f (sheap s) v of (n'', h') \<Rightarrow> Some (n'', s\<lparr>sheap := h'\<rparr>))) = Some (v', s')"
        by (simp add: rewriteNode.simps Let_def)
      from transform_ok [OF T d _ this, of v] nv
      show ?thesis by (simp add: itemOk_def)
    next
      case (Some ob)
      show ?thesis
      proof (cases ob)
        case (Arr items)
        from Suc.prems(1) \<open>?refName = None\<close> Some Arr
        obtain items' s1 a h' where
          "rewriteItems (rewriteNode fuel opts) items s = Some (items', s1)"
          "alloc (sheap s1) (Arr items') = (a, h')"
          "(case transform opts of
            None \<Rightarrow> Some (Ptr a, s1\<lparr>sheap := h'\<rparr>)
          | Some f \<Rightarrow> (case f (sheap (s1\<lparr>sheap := h'\<rparr>)) (Ptr a) of
                        (n'', h'') \<Rightarrow> Some (n'', s1\<lparr>sheap := h'\<rparr>\<lparr>sheap := h''\<rparr>))) = Some (v', s')"
          by (auto simp: rewriteNode.simps Let_def split: option.splits prod.splits)
        then show ?thesis by (rule built)
      next
        case (Obj entries)
        from Suc.prems(1) \<open>?refName = None\<close> Some Obj
        obtain values' s1 a h' where
          "rewriteItems (rewriteNode fuel opts) (map snd entries) s = Some (values', s1)"
          "alloc (sheap s1) (assignEntries (zip (map fst entries) values')) = (a, h')"
          "(case transform opts of
            None \<Rightarrow> Some (Ptr a, s1\<lparr>sheap := h'\<rparr>)
          | Some f \<Rightarrow> (case f (sheap (s1\<lparr>sheap := h'\<rparr>)) (Ptr a) of
                        (n'', h'') \<Rightarrow> Some (n'', s1\<lparr>sheap := h'\<rparr>\<lparr>sheap := h''\<rparr>))) = Some (v', s')"
          by (auto simp: rewriteNode.simps Let_def split: option.splits prod.splits)
        then show ?thesis by (rule built)
      next
        case (Derived p entries)
        from Suc.prems(1) \<open>?refName = None\<close> Some Derived
        obtain values' s1 a h' where
          "rewriteItems (rewriteNode fuel opts) (map snd entries) s = Some (values', s1)"
          "alloc (sheap s1) (assignEntries (zip (map fst entries) values')) = (a, h')"
          "(case transform opts of
            None \<Rightarrow> Some (Ptr a, s1\<lparr>sheap := h'\<rparr>)
          | Some f \<Rightarrow> (case f (sheap (s1\<lparr>sheap := h'\<rparr>)) (Ptr a) of
                        (n'', h'') \<Rightarrow> Some (n'', s1\<lparr>sheap := h'\<rparr>\<lparr>sheap := h''\<rparr>))) = Some (v', s')"
          by (auto simp: rewriteNode.simps Let_def split: option.splits prod.splits)
        then show ?thesis by (rule built)
      qed
    qed
  next
    case (Some name)
    then obtain r t where r: "getReference (sctx s) v = Some r" "target r = Some t"
      "map_of (refs s) t = Some name"
      by (auto split: option.splits)
    let ?s0 = "s\<lparr>defs := Some (case defs s of None \<Rightarrow> [] | Some d \<Rightarrow> d)\<rparr>"
    have d0: "shakeOk h0 rs ?s0" using d by (rule shakeOk_defs_init)
    from Suc.prems(1) r
    obtain s1 a h' where
      s1: "(if \<not> inDefs ?s0 name then
              (case rewriteNode fuel opts t (setDef ?s0 name None) of
                 None \<Rightarrow> None
               | Some (v1, s1') \<Rightarrow> Some (setDef s1' name (Some v1)))
            else Some ?s0) = Some s1"
      and al: "alloc (sheap s1) (Obj [(key r, Str (defsUri opts @ ''/'' @ escapePointer name))]) = (a, h')"
      and tr: "(case transform opts of
            None \<Rightarrow> Some (Ptr a, s1\<lparr>sheap := h', sctx := registerRewritten (sctx s1) a (key r)
                              (defsUri opts @ ''/'' @ escapePointer name) (getDef s1 name)\<rparr>)
          | Some f \<Rightarrow> (case f (sheap (s1\<lparr>sheap := h', sctx := registerRewritten (sctx s1) a (key r)
                              (defsUri opts @ ''/'' @ escapePointer name) (getDef s1 name)\<rparr>)) (Ptr a) of
                        (n'', h'') \<Rightarrow> Some (n'', s1\<lparr>sheap := h', sctx := registerRewritten (sctx s1) a (key r)
                              (defsUri opts @ ''/'' @ escapePointer name) (getDef s1 name)\<rparr>\<lparr>sheap := h''\<rparr>))) = Some (v', s')"
      by (auto simp: rewriteNode.simps Let_def split: option.splits prod.splits if_splits)
    have "shakeOk h0 rs s1"
    proof (cases "inDefs ?s0 name")
      case True
      with s1 d0 show ?thesis by simp
    next
      case False
      with s1 obtain v1 s1' where
        rn: "rewriteNode fuel opts t (setDef ?s0 name None) = Some (v1, s1')"
        and e: "s1 = setDef s1' name (Some v1)"
        by (auto split: option.splits)
      from IH [OF rn shakeOk_setDef_None [OF d0]]
      have st: "shakeOk h0 rs s1'" and it: "itemOk (length h0) t v1" by simp_all
      have "refs s = rs" using d by (simp add: shakeOk_def)
      with r(3) have "(t, name) \<in> set rs" by (auto dest: map_of_SomeD)
      with it have "freshAbove (length h0) v1 \<or> (\<not> isObject v1 \<and> (v1, name) \<in> set rs)"
        by (auto simp: itemOk_def)
      with st show ?thesis unfolding e by (rule shakeOk_setDef_Some)
    qed
    from alloc_ok(2,3) [OF this al]
    have "shakeOk h0 rs (s1\<lparr>sheap := h', sctx := registerRewritten (sctx s1) a (key r)
                              (defsUri opts @ ''/'' @ escapePointer name) (getDef s1 name)\<rparr>)"
      "itemOk (length h0) v (Ptr a)" by simp_all
    from transform_ok [OF T this tr] show ?thesis .
  qed
qed

lemma foldOption_preserves:
  assumes "\<And>x s s'. f x s = Some s' \<Longrightarrow> P s \<Longrightarrow> P s'"
    and "foldOption f xs s = Some s'" and "P s"
  shows "P s'"
  using assms(2,3)
proof (induction xs arbitrary: s)
  case Nil
  then show ?case by simp
next
  case (Cons x xs)
  then obtain s1 where "f x s = Some s1" "foldOption f xs s1 = Some s'"
    by (auto split: option.splits)
  with Cons.IH [of s1] assms(1) [of x s s1] Cons.prems(2) show ?case by simp
qed

text \<open>The mark phase changes \<open>visited\<close> and \<open>refs\<close> only.\<close>

lemma collectReferences_frame:
  "collectReferences fuel opts v s = Some s' \<Longrightarrow>
   P (sheap s) (defs s) (sctx s) \<Longrightarrow> P (sheap s') (defs s') (sctx s')"
proof (induction fuel arbitrary: v s s')
  case 0
  then show ?case by (simp add: collectReferences.simps)
next
  case (Suc fuel)
  have ch: "foldOption (collectReferences fuel opts) xs s1 = Some s2 \<Longrightarrow>
            P (sheap s1) (defs s1) (sctx s1) \<Longrightarrow> P (sheap s2) (defs s2) (sctx s2)" for xs s1 s2
    using foldOption_preserves [of "collectReferences fuel opts"
            "\<lambda>s. P (sheap s) (defs s) (sctx s)" xs s1 s2] Suc.IH
    by blast
  show ?case
  proof (cases "\<not> isObject v \<or> v \<in> set (visited s)")
    case True
    with Suc.prems show ?thesis by (simp add: collectReferences.simps)
  next
    case False
    let ?s1 = "s\<lparr>visited := visited s @ [v]\<rparr>"
    let ?items = "\<lambda>s'. case v of Ptr a \<Rightarrow> objectValues (heapGet (sheap s') a) | _ \<Rightarrow> []"
    have p1: "P (sheap ?s1) (defs ?s1) (sctx ?s1)" using Suc.prems(2) by simp
    have plain: "foldOption (collectReferences fuel opts) (?items ?s1) ?s1 = Some s' \<Longrightarrow> ?thesis"
      using ch [OF _ p1] by blast
    show ?thesis
    proof (cases "getReference (sctx ?s1) v")
      case None
      with Suc.prems(1) False plain show ?thesis
        by (simp add: collectReferences.simps Let_def)
    next
      case (Some ref)
      note sr = Some
      show ?thesis
      proof (cases "target ref")
        case None
        with Suc.prems(1) False sr plain show ?thesis
          by (simp add: collectReferences.simps Let_def)
      next
        case (Some t)
        show ?thesis
        proof (cases "t \<in> Ptr ` set (roots opts)")
          case True
          with Suc.prems(1) False sr Some plain show ?thesis
            by (simp add: collectReferences.simps Let_def)
        next
          case nr: False
          let ?s2 = "if map_of (refs ?s1) t = None then
                       (let name = uriName (Reference.uri ref);
                            k = (case defs ?s1 of
                                   None \<Rightarrow> name
                                 | Some d \<Rightarrow>
                                     keyLoop (map fst d @ ''__proto__'' # objectPrototypeKeys)
                                       name name 1)
                        in ?s1\<lparr>refs := refs ?s1 @ [(t, k)]\<rparr>)
                     else ?s1"
          from Suc.prems(1) False sr Some nr
          obtain s3 where
            c3: "collectReferences fuel opts t ?s2 = Some s3"
            and f3: "foldOption (collectReferences fuel opts) (?items s3) s3 = Some s'"
            by (simp add: collectReferences.simps Let_def split: option.splits)
          have "P (sheap ?s2) (defs ?s2) (sctx ?s2)"
            using Suc.prems(2) by (simp add: Let_def)
          from Suc.IH [OF c3 this] have "P (sheap s3) (defs s3) (sctx s3)" .
          from ch [OF f3 this] show ?thesis .
        qed
      qed
    qed
  qed
qed

lemma markPhase_frame:
  assumes "markPhase fuel ctx h opts = Some s"
  shows "sheap s = h \<and> defs s = None \<and> sctx s = ctx"
  using foldOption_preserves [of "\<lambda>root. collectReferences fuel opts (Ptr root)"
          "\<lambda>s. sheap s = h \<and> defs s = None \<and> sctx s = ctx" "roots opts" "newShake ctx h" s]
        collectReferences_frame [of fuel opts _ _ _ "\<lambda>h' d c. h' = h \<and> d = None \<and> c = ctx"]
        assms
  by (simp add: markPhase_def newShake_def)


section \<open>Scenarios of the frame property\<close>

lemma describeTransform_keeps: "transformKeepsInput describeHeap describeOptions"
proof -
  have "heapExtends describeHeap (snd (describeTransform h v)) \<and>
        (fst (describeTransform h v) = v \<or>
         freshAbove (length describeHeap) (fst (describeTransform h v)))"
    if "heapExtends describeHeap h" for h v
  proof -
    from that have "length describeHeap \<le> length h" by (rule heapExtends_length)
    with that show ?thesis
      by (auto simp: describeTransform_def heapExtends_def alloc_def freshAbove_def)
  qed
  then show ?thesis by (simp add: transformKeepsInput_def describeOptions_def)
qed

lemma stampTransform_keeps: "transformKeepsInput describeHeap stampOptions"
  by (auto simp: transformKeepsInput_def stampOptions_def stampTransform_def
        heapExtends_def freshAbove_def isObject_def split: val.splits obj.splits)

lemma describeContext_refs:
  "getReference describeContext (Ptr a) =
     (if a = 4 then Some \<lparr>key = ''$ref'', uri = ''#/$defs/string'', target = Some (Ptr 3)\<rparr> else None)"
  by (simp add: describeContext_def resolvedContext_def registerReference_def createContext_def
        Let_def getReference_def referenceOf_def createReference_def)

lemma five: "(5::nat) = Suc (Suc (Suc (Suc (Suc 0))))" by simp

lemma describe_mark:
  "markPhase 5 describeContext describeHeap opts =
     (if roots opts = [0] then
        Some ((newShake describeContext describeHeap)
                \<lparr>visited := [Ptr 0, Ptr 1, Ptr 3, Ptr 2, Ptr 4], refs := [(Ptr 3, ''string'')]\<rparr>)
      else markPhase 5 describeContext describeHeap opts)"
proof -
  have n: "uriName ''#/$defs/string'' = ''string''"
    by (simp add: uriName_def lastIndexOf_def)
  show ?thesis
    unfolding five
    by (simp add: markPhase_def newShake_def describeHeap_def isObject_def
        collectReferences.simps describeContext_refs n heapGet_def objectValues_def Let_def)
qed

lemma describe_shake:
  "\<exists>r. treeShakeReferences 5 describeContext describeHeap describeOptions = Some r \<and>
       newRoots r = [Ptr 12] \<and> newDefs r = Some [(''string'', Some (Ptr 9))] \<and>
       drop 5 (newHeap r) =
         [Obj [(''type'', Str ''string'')],
          Obj [(''type'', Str ''string''), (''description'', Str ''Added by transform'')],
          Obj [(''string'', Ptr 6)],
          Obj [(''type'', Str ''string'')],
          Obj [(''type'', Str ''string''), (''description'', Str ''Added by transform'')],
          Obj [(''$ref'', Str ''#/components/schemas/string'')],
          Obj [(''name'', Ptr 10)],
          Obj [(''$defs'', Ptr 7), (''properties'', Ptr 11)]]"
proof -
  have e: "escapePointer ''string'' = ''string''"
    by (simp add: escapePointer_def escapeLoop.simps Let_def)
  have m: "markPhase 5 describeContext describeHeap describeOptions =
     Some ((newShake describeContext describeHeap)
             \<lparr>visited := [Ptr 0, Ptr 1, Ptr 3, Ptr 2, Ptr 4], refs := [(Ptr 3, ''string'')]\<rparr>)"
    by (subst describe_mark) (simp add: describeOptions_def)
  show ?thesis
    unfolding treeShakeReferences_def m
    unfolding five
    by (simp add: newShake_def describeOptions_def describeHeap_def rewriteNode.simps e
        Let_def setDef_def getDef_def inDefs_def alloc_def assignEntries_def
        describeTransform_def getChild_eval
        registerRewritten_def getReference_def referenceOf_def createReference_def
        describeContext_def resolvedContext_def registerReference_def createContext_def)
qed

lemma stamp_shake:
  "\<exists>r. treeShakeReferences 5 describeContext describeHeap stampOptions = Some r \<and>
       newRoots r = [Ptr 10] \<and> newDefs r = Some [(''string'', Some (Ptr 7))] \<and>
       drop 5 (newHeap r) =
         [Obj [(''type'', Str ''string''), (''seen'', Bool True)],
          Obj [(''string'', Ptr 5), (''seen'', Bool True)],
          Obj [(''type'', Str ''string''), (''seen'', Bool True)],
          Obj [(''$ref'', Str ''#/components/schemas/string''), (''seen'', Bool True)],
          Obj [(''name'', Ptr 8), (''seen'', Bool True)],
          Obj [(''$defs'', Ptr 6), (''properties'', Ptr 9), (''seen'', Bool True)]]"
proof -
  have e: "escapePointer ''string'' = ''string''"
    by (simp add: escapePointer_def escapeLoop.simps Let_def)
  have m: "markPhase 5 describeContext describeHeap stampOptions =
     Some ((newShake describeContext describeHeap)
             \<lparr>visited := [Ptr 0, Ptr 1, Ptr 3, Ptr 2, Ptr 4], refs := [(Ptr 3, ''string'')]\<rparr>)"
    by (subst describe_mark) (simp add: stampOptions_def)
  show ?thesis
    unfolding treeShakeReferences_def m
    unfolding five
    by (simp add: newShake_def stampOptions_def describeHeap_def rewriteNode.simps e
        heapGet_def Let_def isObject_def setDef_def getDef_def inDefs_def alloc_def
        assignEntries_def stampTransform_def objectPrototypeKeys_def
        registerRewritten_def getReference_def referenceOf_def createReference_def
        describeContext_def resolvedContext_def registerReference_def createContext_def)
qed




end
